theory Spec2Isabelle
  imports Main "HOL-Library.Multiset" "HOL-Library.Word"
begin

section \<open>The difference-logic consistency graph of \<open>src/main.cpp\<close>\<close>

text \<open>
  The model follows \<open>main.cpp\<close> function by function.  A C++ \<open>int\<close> is a 32-bit
  integer in two's complement.  The weight of an edge is kept as a 32-bit word and read
  as a signed number.  Potentials and gammas are integers, and every sum, difference
  and negation that the source computes on them is followed by \<open>wrap32\<close>, which gives
  the \<open>int\<close> that is stored when the result does not fit (C++ leaves signed overflow
  undefined; the machine wraps around).  The sentinel \<open>undefined_potential\<close> is
  \<open>std::numeric_limits<int>::min()\<close>.  Node ids and edge ids are vector indices and
  modelled as natural numbers.  A result \<open>None\<close> means that the C++ program has no
  result: it reads a vector out of range, or an \<open>assert\<close> fails in a build that
  keeps assertions.
\<close>

subsection \<open>Data\<close>

text \<open>
  \<open>struct Edge\<close>.  The member \<open>int weight\<close> is the field \<open>weight_w\<close>, and \<open>weight\<close> is the
  number it holds.
\<close>

record Edge =
  from_node :: nat
  to_node :: nat
  weight_w :: "32 word"
  lit :: int

definition weight :: "Edge \<Rightarrow> int" where
  "weight uv = sint (weight_w uv)"

text \<open>The \<open>int\<close> that holds the result \<open>x\<close> of an operation on \<open>int\<close> values.\<close>

definition wrap32 :: "int \<Rightarrow> int" where
  "wrap32 x = (x + 2147483648) mod 4294967296 - 2147483648"

text \<open>The value of the C++ expression \<open>a + w - b\<close> on \<open>int\<close> operands.\<close>

definition diff32 :: "int \<Rightarrow> int \<Rightarrow> int \<Rightarrow> int" where
  "diff32 a w b = wrap32 (wrap32 (a + w) - b)"

definition undefined_potential :: int where
  "undefined_potential = - (2 ^ 31)"

record DifferenceLogicNode =
  outgoing :: "nat list"
  potential :: int
  last_edge :: nat
  gamma :: int
  changed :: bool

text \<open>The default member initialisers of \<open>struct DifferenceLogicNode\<close>.\<close>

definition new_node :: DifferenceLogicNode where
  "new_node = \<lparr>outgoing = [], potential = undefined_potential, last_edge = 0,
                gamma = 0, changed = False\<rparr>"

record DifferenceLogicNodeUpdate =
  node_idx :: nat
  upd_gamma :: int

text \<open>
  The private members of \<open>class DifferenceLogicGraph\<close>: \<open>gamma_\<close>, \<open>changed_\<close> and
  \<open>nodes_\<close>.  The member \<open>edges_\<close> is a reference to the propagator's edge table and
  is passed to every function as the argument \<open>es\<close>.
\<close>

record DifferenceLogicGraph =
  gamma_q :: "DifferenceLogicNodeUpdate list"
  changed_l :: "nat list"
  nodes :: "DifferenceLogicNode list"

definition empty_graph :: DifferenceLogicGraph where
  "empty_graph = \<lparr>gamma_q = [], changed_l = [], nodes = []\<rparr>"

definition reset :: "DifferenceLogicGraph \<Rightarrow> DifferenceLogicGraph" where
  "reset g = g\<lparr>nodes := []\<rparr>"

definition node_value_defined :: "DifferenceLogicGraph \<Rightarrow> nat \<Rightarrow> bool" where
  "node_value_defined g idx \<longleftrightarrow> potential (nodes g ! idx) \<noteq> undefined_potential"

definition node_value :: "DifferenceLogicGraph \<Rightarrow> nat \<Rightarrow> int" where
  "node_value g idx = wrap32 (- potential (nodes g ! idx))"

subsection \<open>The priority queue \<open>gamma_\<close>\<close>

text \<open>
  \<open>std::priority_queue<DifferenceLogicNodeUpdate>\<close> with
  \<open>a < b \<longleftrightarrow> a.gamma > b.gamma\<close>: the top is an entry of least gamma.  The queue is
  the list of its entries with the top first.  \<open>push\<close> sifts the new entry up with a
  strict comparison, so it replaces the top only when its gamma is strictly smaller.
  \<open>pop\<close> removes the top; which of several entries of equal least gamma comes to the
  top next depends on the layout of the heap, and is decided here by the parameter
  \<open>tie\<close>, about which nothing is assumed.
\<close>

type_synonym tie_break = "DifferenceLogicNodeUpdate list \<Rightarrow> nat"

definition pq_least :: "DifferenceLogicNodeUpdate list \<Rightarrow> nat list" where
  "pq_least q = filter (\<lambda>i. \<forall>x \<in> set q. upd_gamma (q ! i) \<le> upd_gamma x) [0..<length q]"

definition pq_select :: "tie_break \<Rightarrow> DifferenceLogicNodeUpdate list \<Rightarrow> nat" where
  "pq_select tie q = pq_least q ! (tie q mod length (pq_least q))"

definition pq_push ::
  "DifferenceLogicNodeUpdate \<Rightarrow> DifferenceLogicNodeUpdate list \<Rightarrow> DifferenceLogicNodeUpdate list" where
  "pq_push x q = (case q of [] \<Rightarrow> [x]
                  | t # r \<Rightarrow> if upd_gamma x < upd_gamma t then x # t # r else t # r @ [x])"

definition pq_top :: "DifferenceLogicNodeUpdate list \<Rightarrow> DifferenceLogicNodeUpdate" where
  "pq_top q = hd q"

definition pq_pop :: "tie_break \<Rightarrow> DifferenceLogicNodeUpdate list \<Rightarrow> DifferenceLogicNodeUpdate list" where
  "pq_pop tie q =
     (let r = tl q in
      if r = [] then []
      else let i = pq_select tie r in r ! i # take i r @ drop (Suc i) r)"

subsection \<open>\<open>DifferenceLogicGraph::add_edge\<close>\<close>

definition ensure_index :: "DifferenceLogicNode list \<Rightarrow> nat \<Rightarrow> DifferenceLogicNode list" where
  "ensure_index c index =
     (if index \<ge> length c then c @ replicate (index + 1 - length c) new_node else c)"

text \<open>\<open>if (x.potential == undefined_potential) { x.potential = 0; }\<close>\<close>

definition init_potential :: "nat \<Rightarrow> DifferenceLogicNode list \<Rightarrow> DifferenceLogicNode list" where
  "init_potential i ns =
     (if potential (ns ! i) = undefined_potential then ns[i := (ns ! i)\<lparr>potential := 0\<rparr>] else ns)"

text \<open>The body of the loop \<open>for (auto st_idx : s.outgoing)\<close>.\<close>

definition relax_edge ::
  "Edge list \<Rightarrow> nat \<Rightarrow> nat \<Rightarrow> DifferenceLogicGraph \<Rightarrow> DifferenceLogicGraph option" where
  "relax_edge es s_idx st_idx g =
     (if st_idx \<ge> length es then None
      else let st = es ! st_idx in
        if to_node st \<ge> length (nodes g) then None
        else let t = nodes g ! to_node st in
          if \<not> changed t then
            let gam = diff32 (potential (nodes g ! s_idx)) (weight st) (potential t) in
            if gam < gamma t then
              Some (g\<lparr>nodes := (nodes g)[to_node st := t\<lparr>gamma := gam, last_edge := st_idx\<rparr>],
                      gamma_q := pq_push \<lparr>node_idx = to_node st, upd_gamma = gam\<rparr> (gamma_q g)\<rparr>)
            else Some g
          else Some g)"

fun relax_out ::
  "Edge list \<Rightarrow> nat \<Rightarrow> nat list \<Rightarrow> DifferenceLogicGraph \<Rightarrow> DifferenceLogicGraph option" where
  "relax_out es s_idx [] g = Some g"
| "relax_out es s_idx (st_idx # rest) g =
     (case relax_edge es s_idx st_idx g of
        None \<Rightarrow> None
      | Some g' \<Rightarrow> relax_out es s_idx rest g')"

text \<open>
  One visit of a node that is not yet changed: the potential is lowered by gamma, the
  node is marked and recorded in \<open>changed_\<close>, and its outgoing edges are relaxed.  The
  \<open>assert\<close> compares the node's gamma with the gamma of the top entry; it is compiled
  out when \<open>NDEBUG\<close> is defined, which is the parameter \<open>ndebug\<close>.
\<close>

definition mark_changed :: "nat \<Rightarrow> DifferenceLogicGraph \<Rightarrow> DifferenceLogicGraph" where
  "mark_changed s_idx g =
     (let s = nodes g ! s_idx in
      g\<lparr>nodes := (nodes g)[s_idx := s\<lparr>potential := wrap32 (potential s + gamma s),
                                        gamma := 0, changed := True\<rparr>],
        changed_l := changed_l g @ [s_idx]\<rparr>)"

definition visit ::
  "bool \<Rightarrow> Edge list \<Rightarrow> nat \<Rightarrow> DifferenceLogicGraph \<Rightarrow> DifferenceLogicGraph option" where
  "visit ndebug es s_idx g =
     (if \<not> ndebug \<and> gamma (nodes g ! s_idx) \<noteq> upd_gamma (pq_top (gamma_q g)) then None
      else relax_out es s_idx (outgoing (nodes g ! s_idx)) (mark_changed s_idx g))"

definition unchanged_count :: "DifferenceLogicNode list \<Rightarrow> nat" where
  "unchanged_count ns = length (filter (\<lambda>n. \<not> changed n) ns)"

lemma length_pq_push: "length (pq_push x q) = Suc (length q)"
  by (simp add: pq_push_def split: list.splits)

lemma pq_least_nonempty: "q \<noteq> [] \<Longrightarrow> pq_least q \<noteq> []"
proof -
  assume ne: "q \<noteq> []"
  then have "\<exists>y \<in> set q. \<forall>x \<in> set q. upd_gamma y \<le> upd_gamma x"
  proof (induction q)
    case Nil
    then show ?case by simp
  next
    case (Cons a q)
    show ?case
    proof (cases "q = []")
      case True
      then show ?thesis by simp
    next
      case False
      with Cons.IH obtain y where y: "y \<in> set q" "\<forall>x \<in> set q. upd_gamma y \<le> upd_gamma x"
        by blast
      show ?thesis
      proof (cases "upd_gamma a \<le> upd_gamma y")
        case True
        with y have "\<forall>x \<in> set (a # q). upd_gamma a \<le> upd_gamma x" by auto
        then show ?thesis by auto
      next
        case False
        with y have "\<forall>x \<in> set (a # q). upd_gamma y \<le> upd_gamma x" by auto
        with y(1) show ?thesis by auto
      qed
    qed
  qed
  then obtain y where y: "y \<in> set q" "\<forall>x \<in> set q. upd_gamma y \<le> upd_gamma x" by blast
  from y(1) obtain i where i: "i < length q" "q ! i = y" by (auto simp: in_set_conv_nth)
  with y(2) have "i \<in> set (pq_least q)" by (simp add: pq_least_def)
  then show ?thesis by auto
qed

lemma pq_select_in_least: "q \<noteq> [] \<Longrightarrow> pq_select tie q \<in> set (pq_least q)"
  using pq_least_nonempty [of q] by (simp add: pq_select_def)

lemma pq_select_less: "q \<noteq> [] \<Longrightarrow> pq_select tie q < length q"
  using pq_select_in_least [of q tie] by (simp add: pq_least_def)

lemma length_pq_pop: "q \<noteq> [] \<Longrightarrow> length (pq_pop tie q) = length q - 1"
proof -
  assume ne: "q \<noteq> []"
  show ?thesis
  proof (cases "tl q = []")
    case True
    with ne show ?thesis by (cases q) (simp_all add: pq_pop_def)
  next
    case False
    from pq_select_less [OF False] have "pq_select tie (tl q) < length (tl q)" .
    with False show ?thesis by (simp add: pq_pop_def Let_def)
  qed
qed

lemma relax_edge_changed:
  "relax_edge es s st g = Some g' \<Longrightarrow> map changed (nodes g') = map changed (nodes g)"
  by (auto simp: relax_edge_def Let_def map_update list_update_same_conv split: if_splits)

lemma relax_out_changed:
  "relax_out es s os g = Some g' \<Longrightarrow> map changed (nodes g') = map changed (nodes g)"
proof (induction os arbitrary: g)
  case Nil
  then show ?case by simp
next
  case (Cons a os)
  then show ?case by (auto split: option.splits dest: relax_edge_changed)
qed

lemma unchanged_count_flags:
  "unchanged_count ns = length (filter (\<lambda>b. \<not> b) (map changed ns))"
  by (induction ns) (simp_all add: unchanged_count_def)

lemma unchanged_count_map:
  "map changed ns' = map changed ns \<Longrightarrow> unchanged_count ns' = unchanged_count ns"
  by (simp only: unchanged_count_flags)

lemma unchanged_count_mark:
  assumes "i < length ns" and "\<not> changed (ns ! i)" and "changed x"
  shows "unchanged_count (ns[i := x]) < unchanged_count ns"
proof -
  have ns: "ns = take i ns @ ns ! i # drop (Suc i) ns"
    using assms(1) by (simp add: id_take_nth_drop)
  have upd: "ns[i := x] = take i ns @ x # drop (Suc i) ns"
    using assms(1) by (simp add: upd_conv_take_nth_drop)
  have "unchanged_count ns
      = unchanged_count (take i ns) + 1 + unchanged_count (drop (Suc i) ns)"
    using assms(2) by (subst ns) (simp add: unchanged_count_def)
  moreover have "unchanged_count (ns[i := x])
      = unchanged_count (take i ns) + unchanged_count (drop (Suc i) ns)"
    using assms(3) by (simp add: upd unchanged_count_def)
  ultimately show ?thesis by simp
qed

lemma visit_unchanged_count:
  assumes "visit ndebug es s g = Some g'" and "s < length (nodes g)" and "\<not> changed (nodes g ! s)"
  shows "unchanged_count (nodes g') < unchanged_count (nodes g)"
proof -
  from assms(1) have "relax_out es s (outgoing (nodes g ! s)) (mark_changed s g) = Some g'"
    by (simp add: visit_def split: if_splits)
  then have "unchanged_count (nodes g') = unchanged_count (nodes (mark_changed s g))"
    by (intro unchanged_count_map relax_out_changed)
  also have "\<dots> < unchanged_count (nodes g)"
    using assms(2,3) by (simp add: mark_changed_def Let_def unchanged_count_mark)
  finally show ?thesis .
qed

text \<open>
  The loop \<open>while (!gamma_.empty() && u.gamma == 0)\<close>.  The entry removed by
  \<open>gamma_.pop()\<close> is the top of the queue after the pushes of the visit.
\<close>

function relax ::
  "bool \<Rightarrow> tie_break \<Rightarrow> Edge list \<Rightarrow> nat \<Rightarrow> DifferenceLogicGraph \<Rightarrow> DifferenceLogicGraph option" where
  "relax ndebug tie es u_idx g =
     (if gamma_q g \<noteq> [] \<and> gamma (nodes g ! u_idx) = 0 then
        let s_idx = node_idx (pq_top (gamma_q g)) in
        if s_idx \<ge> length (nodes g) then None
        else if \<not> changed (nodes g ! s_idx) then
          (case visit ndebug es s_idx g of
             None \<Rightarrow> None
           | Some g' \<Rightarrow> relax ndebug tie es u_idx (g'\<lparr>gamma_q := pq_pop tie (gamma_q g')\<rparr>))
        else relax ndebug tie es u_idx (g\<lparr>gamma_q := pq_pop tie (gamma_q g)\<rparr>)
      else Some g)"
  by pat_completeness auto
termination
proof (relation "measures [\<lambda>(ndebug, tie, es, u, g). unchanged_count (nodes g),
                           \<lambda>(ndebug, tie, es, u, g). length (gamma_q g)]")
  show "wf (measures [\<lambda>(ndebug, tie, es, u, g). unchanged_count (nodes g),
                      \<lambda>(ndebug, tie, es, u, g). length (gamma_q g)])"
    by simp
next
  fix ndebug :: bool and tie :: tie_break and es :: "Edge list" and u_idx :: nat
    and g g' :: DifferenceLogicGraph and s_idx :: nat
  assume "s_idx = node_idx (pq_top (gamma_q g))" "\<not> length (nodes g) \<le> s_idx"
    "\<not> changed (nodes g ! s_idx)" "visit ndebug es s_idx g = Some g'"
  then have "unchanged_count (nodes g') < unchanged_count (nodes g)"
    by (intro visit_unchanged_count) simp_all
  then show "((ndebug, tie, es, u_idx, g'\<lparr>gamma_q := pq_pop tie (gamma_q g')\<rparr>), ndebug, tie, es, u_idx, g)
      \<in> measures [\<lambda>(ndebug, tie, es, u, g). unchanged_count (nodes g),
                   \<lambda>(ndebug, tie, es, u, g). length (gamma_q g)]"
    by simp
next
  fix ndebug :: bool and tie :: tie_break and es :: "Edge list" and u_idx :: nat
    and g :: DifferenceLogicGraph and s_idx :: nat
  assume "gamma_q g \<noteq> [] \<and> gamma (nodes g ! u_idx) = 0"
  then have "length (pq_pop tie (gamma_q g)) < length (gamma_q g)"
    by (simp add: length_pq_pop)
  then show "((ndebug, tie, es, u_idx, g\<lparr>gamma_q := pq_pop tie (gamma_q g)\<rparr>), ndebug, tie, es, u_idx, g)
      \<in> measures [\<lambda>(ndebug, tie, es, u, g). unchanged_count (nodes g),
                   \<lambda>(ndebug, tie, es, u, g). length (gamma_q g)]"
    by simp
qed

declare relax.simps [simp del]

text \<open>
  The loop that gathers the edges of the negative cycle by following \<open>last_edge\<close>.  On
  an arbitrary state it need not end, so not returning is the value \<open>None\<close>.
\<close>

partial_function (option) gather_cycle ::
  "Edge list \<Rightarrow> DifferenceLogicNode list \<Rightarrow> nat \<Rightarrow> nat \<Rightarrow> nat list \<Rightarrow> nat list option" where
  [code]: "gather_cycle es ns v_idx next_idx neg_cycle =
     (if v_idx = next_idx then Some neg_cycle
      else if next_idx \<ge> length ns then None
      else let le = last_edge (ns ! next_idx) in
        if le \<ge> length es then None
        else gather_cycle es ns v_idx (from_node (es ! le)) (neg_cycle @ [le]))"

text \<open>The loop \<open>while (!gamma_.empty())\<close> of the clean-up.\<close>

function drain_gamma :: "tie_break \<Rightarrow> DifferenceLogicGraph \<Rightarrow> DifferenceLogicGraph option" where
  "drain_gamma tie g =
     (if gamma_q g = [] then Some g
      else let i = node_idx (pq_top (gamma_q g)) in
        if i \<ge> length (nodes g) then None
        else drain_gamma tie (g\<lparr>nodes := (nodes g)[i := (nodes g ! i)\<lparr>gamma := 0\<rparr>],
                                 gamma_q := pq_pop tie (gamma_q g)\<rparr>))"
  by pat_completeness auto
termination
  by (relation "measure (\<lambda>(tie, g). length (gamma_q g))") (auto simp: length_pq_pop)

declare drain_gamma.simps [simp del]

text \<open>The loop \<open>for (auto x : changed_)\<close> of the clean-up.\<close>

fun clear_changed :: "nat list \<Rightarrow> DifferenceLogicNode list \<Rightarrow> DifferenceLogicNode list option" where
  "clear_changed [] ns = Some ns"
| "clear_changed (x # xs) ns =
     (if x \<ge> length ns then None else clear_changed xs (ns[x := (ns ! x)\<lparr>changed := False\<rparr>]))"

text \<open>The part of \<open>add_edge\<close> under the comment "reset gamma and changed flags".\<close>

definition reset_scratch ::
  "tie_break \<Rightarrow> nat \<Rightarrow> DifferenceLogicGraph \<Rightarrow> DifferenceLogicGraph option" where
  "reset_scratch tie v g =
     (case drain_gamma tie (g\<lparr>nodes := (nodes g)[v := (nodes g ! v)\<lparr>gamma := 0\<rparr>]\<rparr>) of
        None \<Rightarrow> None
      | Some g' \<Rightarrow>
          (case clear_changed (changed_l g') (nodes g') of
             None \<Rightarrow> None
           | Some ns \<Rightarrow> Some (g'\<lparr>nodes := ns, changed_l := []\<rparr>)))"

text \<open>The part of \<open>add_edge\<close> under the comment "initialize the nodes of the edge to add".\<close>

definition start_edge :: "Edge list \<Rightarrow> DifferenceLogicGraph \<Rightarrow> nat \<Rightarrow> DifferenceLogicGraph" where
  "start_edge es g uv_idx =
     (let uv = es ! uv_idx; u = from_node uv; v = to_node uv;
          ns = init_potential v (init_potential u (ensure_index (nodes g) (max u v)));
          gv = diff32 (potential (ns ! u)) (weight uv) (potential (ns ! v));
          ns' = ns[v := (ns ! v)\<lparr>gamma := gv\<rparr>]
      in if gv < 0
         then g\<lparr>gamma_q := pq_push \<lparr>node_idx = v, upd_gamma = gv\<rparr> (gamma_q g),
                nodes := ns'[v := (ns' ! v)\<lparr>last_edge := uv_idx\<rparr>]\<rparr>
         else g\<lparr>nodes := ns'\<rparr>)"

text \<open>The branch of \<open>add_edge\<close> under the comment "gather the edges in the negative cycle".\<close>

definition neg_cycle_of :: "Edge list \<Rightarrow> DifferenceLogicGraph \<Rightarrow> nat \<Rightarrow> nat list option" where
  "neg_cycle_of es g v =
     (let le = last_edge (nodes g ! v) in
      if le \<ge> length es then None
      else gather_cycle es (nodes g) v (from_node (es ! le)) [le])"

text \<open>The branch of \<open>add_edge\<close> under the comment "add the edge to the graph".\<close>

definition install :: "nat \<Rightarrow> nat \<Rightarrow> DifferenceLogicGraph \<Rightarrow> DifferenceLogicGraph" where
  "install u uv_idx g =
     g\<lparr>nodes := (nodes g)[u := (nodes g ! u)\<lparr>outgoing := outgoing (nodes g ! u) @ [uv_idx]\<rparr>]\<rparr>"

definition add_edge ::
  "bool \<Rightarrow> tie_break \<Rightarrow> Edge list \<Rightarrow> DifferenceLogicGraph \<Rightarrow> nat \<Rightarrow> (DifferenceLogicGraph \<times> nat list) option" where
  "add_edge ndebug tie es g uv_idx =
     (if uv_idx \<ge> length es then None
      else let u = from_node (es ! uv_idx); v = to_node (es ! uv_idx) in
        case relax ndebug tie es u (start_edge es g uv_idx) of
          None \<Rightarrow> None
        | Some g2 \<Rightarrow>
            if gamma (nodes g2 ! u) < 0 then
              (case neg_cycle_of es g2 v of
                 None \<Rightarrow> None
               | Some neg_cycle \<Rightarrow>
                   (case reset_scratch tie v g2 of
                      None \<Rightarrow> None
                    | Some g3 \<Rightarrow> Some (g3, neg_cycle)))
            else
              (case reset_scratch tie v (install u uv_idx g2) of
                 None \<Rightarrow> None
               | Some g3 \<Rightarrow> Some (g3, [])))"

section \<open>The propagator of \<open>src/main.cpp\<close>\<close>

subsection \<open>The edge table\<close>

text \<open>
  What \<open>add_edge_atom\<close> reads from a theory atom of the host: the name of its term,
  the solver literal of the atom, the guard (a number, or the unary minus applied to a
  number) and the names of the two nodes of its element.
\<close>

datatype guard_term = Number int | Minus int

record TheoryAtom =
  term_name :: string
  solver_literal :: int
  guard :: guard_term
  elem_u :: string
  elem_v :: string

text \<open>
  \<open>std::unordered_multimap<literal_t, int>\<close> as the list of its pairs in iteration
  order: pairs of the same key are neighbours.  C++ does not say where \<open>emplace\<close> puts
  a pair among the pairs of the same key that are already there; the parameter
  \<open>place\<close> decides it, and nothing is assumed about it.  A pair with a new key goes to
  the end of the list.
\<close>

type_synonym placement = "(int \<times> nat) list \<Rightarrow> int \<Rightarrow> nat"

definition mm_emplace ::
  "placement \<Rightarrow> int \<Rightarrow> nat \<Rightarrow> (int \<times> nat) list \<Rightarrow> (int \<times> nat) list" where
  "mm_emplace place k v m =
     (let pre = takeWhile (\<lambda>p. fst p \<noteq> k) m;
          rest = dropWhile (\<lambda>p. fst p \<noteq> k) m;
          grp = takeWhile (\<lambda>p. fst p = k) rest;
          post = dropWhile (\<lambda>p. fst p = k) rest;
          i = place m k mod (length grp + 1)
      in pre @ take i grp @ (k, v) # drop i grp @ post)"

text \<open>
  The values visited by
  \<open>for (auto it = m.find(k), ie = m.end(); it != ie && it->first == k; ++it)\<close>.
\<close>

definition mm_range :: "int \<Rightarrow> (int \<times> nat) list \<Rightarrow> nat list" where
  "mm_range k m = map snd (takeWhile (\<lambda>p. fst p = k) (dropWhile (\<lambda>p. fst p \<noteq> k) m))"

record DLState =
  edge_trail :: "int list"
  dl_graph :: DifferenceLogicGraph
  propagated :: nat

record DifferenceLogicPropagator =
  states :: "DLState list"
  lit_to_edges :: "(int \<times> nat) list"
  edges :: "Edge list"
  vert_map :: "string list"
  vert_map_inv :: "(string \<times> nat) list"

text \<open>
  \<open>vert_map_inv_\<close> is a \<open>std::unordered_map\<close> from names to node ids, modelled as
  an association list that is read with \<open>map_of\<close>.
\<close>

definition new_propagator :: DifferenceLogicPropagator where
  "new_propagator = \<lparr>states = [], lit_to_edges = [], edges = [], vert_map = [],
                       vert_map_inv = []\<rparr>"

definition map_vert ::
  "string \<Rightarrow> DifferenceLogicPropagator \<Rightarrow> nat \<times> DifferenceLogicPropagator" where
  "map_vert v p =
     (case map_of (vert_map_inv p) v of
        Some i \<Rightarrow> (i, p)
      | None \<Rightarrow> (length (vert_map p),
                 p\<lparr>vert_map_inv := (v, length (vert_map p)) # vert_map_inv p,
                   vert_map := vert_map p @ [v]\<rparr>))"

definition add_edge_atom ::
  "placement \<Rightarrow> TheoryAtom \<Rightarrow> DifferenceLogicPropagator \<Rightarrow> DifferenceLogicPropagator" where
  "add_edge_atom place atom p =
     (let l = solver_literal atom;
          w = (case guard atom of Number k \<Rightarrow> word_of_int k | Minus k \<Rightarrow> word_of_int (- k));
          (u_id, p1) = map_vert (elem_u atom) p;
          (v_id, p2) = map_vert (elem_v atom) p1;
          eid = length (edges p2)
      in p2\<lparr>edges := edges p2 @ [\<lparr>from_node = u_id, to_node = v_id, weight_w = w, lit = l\<rparr>],
            lit_to_edges := mm_emplace place l eid (lit_to_edges p2)\<rparr>)"

definition new_state :: DLState where
  "new_state = \<lparr>edge_trail = [], dl_graph = empty_graph, propagated = 0\<rparr>"

fun add_atoms ::
  "placement \<Rightarrow> TheoryAtom list \<Rightarrow> DifferenceLogicPropagator \<Rightarrow> DifferenceLogicPropagator" where
  "add_atoms place [] p = p"
| "add_atoms place (atom # atoms) p =
     add_atoms place atoms (if term_name atom = ''diff'' then add_edge_atom place atom p else p)"

definition init ::
  "placement \<Rightarrow> TheoryAtom list \<Rightarrow> nat \<Rightarrow> DifferenceLogicPropagator \<Rightarrow> DifferenceLogicPropagator" where
  "init place atoms number_of_threads p =
     (let p' = add_atoms place atoms p
      in p'\<lparr>states := states p' @ replicate number_of_threads new_state\<rparr>)"

subsection \<open>Propagation and undo\<close>

text \<open>
  The host's \<open>PropagateControl\<close>: the thread, and the clauses passed to \<open>add_clause\<close>
  so far.  What the host answers to \<open>add_clause\<close> and to \<open>propagate\<close> is not in the
  repository; the answers are the two functions of a \<open>Host\<close>, and nothing is assumed
  about them.
\<close>

record PropagateControl =
  thread_id :: nat
  clauses :: "int list list"

record Host =
  add_clause_r :: "int list list \<Rightarrow> bool"
  propagate_r :: "int list list \<Rightarrow> bool"

text \<open>
  The inner loop of \<open>check_consistency\<close> over the edges of one literal.  The flag of the
  result is \<open>False\<close> when the loop leaves by \<open>return false\<close>.
\<close>

fun check_edges ::
  "bool \<Rightarrow> tie_break \<Rightarrow> Host \<Rightarrow> Edge list \<Rightarrow> nat list \<Rightarrow> DifferenceLogicGraph \<Rightarrow>
   PropagateControl \<Rightarrow> (bool \<times> DifferenceLogicGraph \<times> PropagateControl) option" where
  "check_edges ndebug tie host es [] g ctl = Some (True, g, ctl)"
| "check_edges ndebug tie host es (eid # rest) g ctl =
     (case add_edge ndebug tie es g eid of
        None \<Rightarrow> None
      | Some (g', neg_cycle) \<Rightarrow>
          if neg_cycle \<noteq> [] then
            if \<exists>e \<in> set neg_cycle. e \<ge> length es then None
            else
              let clause = map (\<lambda>e. - lit (es ! e)) neg_cycle;
                  ctl' = ctl\<lparr>clauses := clauses ctl @ [clause]\<rparr>
              in if \<not> add_clause_r host (clauses ctl') \<or> \<not> propagate_r host (clauses ctl')
                 then Some (False, g', ctl')
                 else if ndebug then check_edges ndebug tie host es rest g' ctl'
                 else None
          else check_edges ndebug tie host es rest g' ctl)"

function check_consistency ::
  "bool \<Rightarrow> tie_break \<Rightarrow> Host \<Rightarrow> DifferenceLogicPropagator \<Rightarrow> DLState \<Rightarrow>
   PropagateControl \<Rightarrow> (bool \<times> DLState \<times> PropagateControl) option" where
  "check_consistency ndebug tie host p state ctl =
     (if propagated state < length (edge_trail state) then
        (case check_edges ndebug tie host (edges p)
                (mm_range (edge_trail state ! propagated state) (lit_to_edges p))
                (dl_graph state) ctl of
           None \<Rightarrow> None
         | Some (ok, g', ctl') \<Rightarrow>
             if ok then check_consistency ndebug tie host p
                          (state\<lparr>dl_graph := g', propagated := propagated state + 1\<rparr>) ctl'
             else Some (False, state\<lparr>dl_graph := g'\<rparr>, ctl'))
      else Some (True, state, ctl))"
  by pat_completeness auto
termination
  by (relation "measure (\<lambda>(ndebug, tie, host, p, state, ctl).
        length (edge_trail state) - propagated state)") auto

declare check_consistency.simps [simp del]

definition propagate ::
  "bool \<Rightarrow> tie_break \<Rightarrow> Host \<Rightarrow> DifferenceLogicPropagator \<Rightarrow> PropagateControl \<Rightarrow> int list \<Rightarrow>
   (bool \<times> DifferenceLogicPropagator \<times> PropagateControl) option" where
  "propagate ndebug tie host p ctl changes =
     (if thread_id ctl \<ge> length (states p) then None
      else
        let state = states p ! thread_id ctl;
            state' = state\<lparr>edge_trail := edge_trail state @ changes\<rparr>
        in case check_consistency ndebug tie host p state' ctl of
             None \<Rightarrow> None
           | Some (ok, state'', ctl') \<Rightarrow>
               Some (ok, p\<lparr>states := (states p)[thread_id ctl := state'']\<rparr>, ctl'))"

definition undo ::
  "DifferenceLogicPropagator \<Rightarrow> PropagateControl \<Rightarrow> int list \<Rightarrow> DifferenceLogicPropagator option" where
  "undo p ctl changes =
     (if thread_id ctl \<ge> length (states p) then None
      else
        let state = states p ! thread_id ctl in
        if length changes > length (edge_trail state) then None
        else Some (p\<lparr>states := (states p)[thread_id ctl :=
               state\<lparr>edge_trail := take (length (edge_trail state) - length changes) (edge_trail state),
                     propagated := 0,
                     dl_graph := reset (dl_graph state)\<rparr>]\<rparr>))"

section \<open>Quiescence and the invariants of the relaxation loop\<close>

text \<open>
  The active edges are the entries of the \<open>outgoing\<close> lists.  A graph is at quiescence
  when its adjacency is well formed (every entry of \<open>outgoing(n)\<close> is an edge of the table
  that leaves \<open>n\<close> and whose target has a node record), its scratch state is clean, and
  every active edge has a reduced weight that is not negative.  The reduced weight is the
  number \<open>potential(u) + w - potential(v)\<close>, not the \<open>int\<close> the program would compute.

  A call of \<open>add_edge\<close> for the edge \<open>e\<close> is within bounds when the weights of \<open>e\<close> and of
  the active edges and the potentials of the two nodes of every active edge are at most
  \<open>2^28\<close> in absolute value, and the potential of each node of \<open>e\<close> that has a record is
  undefined or at most \<open>2^28\<close> in absolute value.  Then no operation of the call leaves
  the range of \<open>int\<close>.
\<close>

definition active_edges :: "DifferenceLogicGraph \<Rightarrow> nat list" where
  "active_edges g = concat (map outgoing (nodes g))"

definition reduced_weight :: "Edge list \<Rightarrow> DifferenceLogicGraph \<Rightarrow> nat \<Rightarrow> int" where
  "reduced_weight es g e =
     potential (nodes g ! from_node (es ! e)) + weight (es ! e)
     - potential (nodes g ! to_node (es ! e))"

definition wf_graph :: "Edge list \<Rightarrow> DifferenceLogicGraph \<Rightarrow> bool" where
  "wf_graph es g \<longleftrightarrow>
     (\<forall>n \<in> set [0..<length (nodes g)]. \<forall>e \<in> set (outgoing (nodes g ! n)).
        e < length es \<and> from_node (es ! e) = n \<and> to_node (es ! e) < length (nodes g))"

definition clean :: "DifferenceLogicGraph \<Rightarrow> bool" where
  "clean g \<longleftrightarrow>
     gamma_q g = [] \<and> changed_l g = [] \<and> (\<forall>n \<in> set (nodes g). gamma n = 0 \<and> \<not> changed n)"

definition feasible :: "Edge list \<Rightarrow> DifferenceLogicGraph \<Rightarrow> bool" where
  "feasible es g \<longleftrightarrow> (\<forall>e \<in> set (active_edges g). 0 \<le> reduced_weight es g e)"

definition quiescent :: "Edge list \<Rightarrow> DifferenceLogicGraph \<Rightarrow> bool" where
  "quiescent es g \<longleftrightarrow> wf_graph es g \<and> clean g \<and> feasible es g"

definition small :: "int \<Rightarrow> bool" where
  "small x \<longleftrightarrow> - 268435456 \<le> x \<and> x \<le> 268435456"

definition in_bounds :: "Edge list \<Rightarrow> DifferenceLogicGraph \<Rightarrow> nat \<Rightarrow> bool" where
  "in_bounds es g e \<longleftrightarrow>
     (\<forall>x \<in> set (active_edges g).
        small (weight (es ! x)) \<and> small (potential (nodes g ! from_node (es ! x))) \<and>
        small (potential (nodes g ! to_node (es ! x)))) \<and>
     small (weight (es ! e)) \<and>
     (\<forall>n \<in> set [from_node (es ! e), to_node (es ! e)].
        n < length (nodes g) \<longrightarrow>
          potential (nodes g ! n) = undefined_potential \<or> small (potential (nodes g ! n)))"

text \<open>
  The invariants of the loop in \<open>add_edge\<close> for the edge \<open>e\<close>.  \<open>scratch_inv\<close> relates
  the flags, gammas, \<open>changed_\<close> and the queue.  \<open>chain_inv\<close> describes \<open>last_edge\<close>: every
  changed node was reached through its last edge from a node changed before it (the
  target of \<open>e\<close> first, through \<open>e\<close>), and its potential is the \<open>int\<close> sum of the potential
  of its predecessor and the weight of the edge.  \<open>dijkstra_inv\<close>, with the potentials
  \<open>p0\<close> at the start of the loop, says that the gammas of changed nodes do not exceed the
  gammas in the queue, that every node with a pending gamma has its entry in the queue,
  and that the edges among changed nodes are feasible again.  \<open>range_inv\<close>, with the
  gamma \<open>lo\<close> of the first entry, keeps gammas and potentials in the range in which the
  \<open>int\<close> operations of the loop are exact.
\<close>

definition scratch_inv :: "Edge list \<Rightarrow> DifferenceLogicGraph \<Rightarrow> bool" where
  "scratch_inv es g \<longleftrightarrow>
     wf_graph es g \<and> distinct (changed_l g) \<and>
     (\<forall>x \<in> set (changed_l g). x < length (nodes g)) \<and>
     (\<forall>n < length (nodes g). changed (nodes g ! n) \<longleftrightarrow> n \<in> set (changed_l g)) \<and>
     (\<forall>n < length (nodes g). gamma (nodes g ! n) \<le> 0) \<and>
     (\<forall>n < length (nodes g). changed (nodes g ! n) \<longrightarrow> gamma (nodes g ! n) = 0) \<and>
     (\<forall>x \<in> set (gamma_q g). node_idx x < length (nodes g)) \<and>
     (\<forall>x \<in> set (gamma_q g). \<not> changed (nodes g ! node_idx x) \<longrightarrow> gamma (nodes g ! node_idx x) < 0)"

definition chain_node :: "Edge list \<Rightarrow> nat \<Rightarrow> DifferenceLogicGraph \<Rightarrow> nat \<Rightarrow> bool" where
  "chain_node es e g i \<longleftrightarrow>
     (let s = changed_l g ! i; le = last_edge (nodes g ! s) in
      le < length es \<and> to_node (es ! le) = s \<and>
      potential (nodes g ! s)
        = wrap32 (potential (nodes g ! from_node (es ! le)) + weight (es ! le)) \<and>
      (if i = 0 then s = to_node (es ! e) else \<exists>j < i. from_node (es ! le) = changed_l g ! j))"

definition chain_front :: "Edge list \<Rightarrow> nat \<Rightarrow> DifferenceLogicGraph \<Rightarrow> nat \<Rightarrow> bool" where
  "chain_front es e g t \<longleftrightarrow>
     (let le = last_edge (nodes g ! t) in
      le < length es \<and> to_node (es ! le) = t \<and>
      gamma (nodes g ! t)
        = diff32 (potential (nodes g ! from_node (es ! le))) (weight (es ! le))
            (potential (nodes g ! t)) \<and>
      (if changed_l g = [] then t = to_node (es ! e) else from_node (es ! le) \<in> set (changed_l g)))"

definition chain_inv :: "Edge list \<Rightarrow> nat \<Rightarrow> DifferenceLogicGraph \<Rightarrow> bool" where
  "chain_inv es e g \<longleftrightarrow>
     e < length es \<and> from_node (es ! e) < length (nodes g) \<and> to_node (es ! e) < length (nodes g) \<and>
     from_node (es ! e) \<noteq> to_node (es ! e) \<and>
     from_node (es ! e) \<notin> set (changed_l g) \<and>
     last_edge (nodes g ! to_node (es ! e)) = e \<and>
     (changed_l g = [] \<longrightarrow>
        gamma (nodes g ! to_node (es ! e)) < 0 \<and>
        (\<forall>x \<in> set (gamma_q g). node_idx x = to_node (es ! e))) \<and>
     (\<forall>i < length (changed_l g). chain_node es e g i) \<and>
     (\<forall>t < length (nodes g). \<not> changed (nodes g ! t) \<and> gamma (nodes g ! t) < 0
        \<longrightarrow> chain_front es e g t)"

definition dijkstra_inv :: "Edge list \<Rightarrow> (nat \<Rightarrow> int) \<Rightarrow> DifferenceLogicGraph \<Rightarrow> bool" where
  "dijkstra_inv es p0 g \<longleftrightarrow>
     (\<forall>n < length (nodes g). \<not> changed (nodes g ! n) \<longrightarrow> potential (nodes g ! n) = p0 n) \<and>
     (\<forall>n < length (nodes g). changed (nodes g ! n) \<longrightarrow> potential (nodes g ! n) \<le> p0 n) \<and>
     (\<forall>n < length (nodes g). \<forall>x \<in> set (gamma_q g). changed (nodes g ! n)
        \<longrightarrow> potential (nodes g ! n) - p0 n \<le> upd_gamma x) \<and>
     (\<forall>x \<in> set (gamma_q g). \<not> changed (nodes g ! node_idx x)
        \<longrightarrow> gamma (nodes g ! node_idx x) \<le> upd_gamma x) \<and>
     (\<forall>t < length (nodes g). \<not> changed (nodes g ! t) \<and> gamma (nodes g ! t) < 0
        \<longrightarrow> \<lparr>node_idx = t, upd_gamma = gamma (nodes g ! t)\<rparr> \<in> set (gamma_q g)) \<and>
     (\<forall>x \<in> set (gamma_q g). upd_gamma (hd (gamma_q g)) \<le> upd_gamma x) \<and>
     (\<forall>a < length (nodes g). \<forall>e \<in> set (outgoing (nodes g ! a)).
        0 \<le> p0 a + weight (es ! e) - p0 (to_node (es ! e))) \<and>
     (\<forall>a < length (nodes g). \<forall>e \<in> set (outgoing (nodes g ! a)).
        changed (nodes g ! a) \<longrightarrow>
          (if changed (nodes g ! to_node (es ! e)) then 0 else gamma (nodes g ! to_node (es ! e)))
          \<le> potential (nodes g ! a) + weight (es ! e) - potential (nodes g ! to_node (es ! e)))"

definition range_inv :: "Edge list \<Rightarrow> (nat \<Rightarrow> int) \<Rightarrow> int \<Rightarrow> DifferenceLogicGraph \<Rightarrow> bool" where
  "range_inv es p0 lo g \<longleftrightarrow>
     - 805306368 \<le> lo \<and> lo \<le> 0 \<and>
     (\<forall>n < length (nodes g). lo \<le> gamma (nodes g ! n) \<and> p0 n + lo \<le> potential (nodes g ! n)) \<and>
     (\<forall>a < length (nodes g). \<forall>x \<in> set (outgoing (nodes g ! a)).
        small (p0 a) \<and> small (p0 (to_node (es ! x))) \<and> small (weight (es ! x))) \<and>
     (\<forall>x \<in> set (gamma_q g). small (p0 (node_idx x)))"

text \<open>
  A list of edges walked against their direction from \<open>a\<close> to \<open>b\<close>: the first edge enters
  \<open>a\<close>, each next edge enters the source of the one before, and the last leaves \<open>b\<close>.
\<close>

fun back_walk :: "Edge list \<Rightarrow> nat \<Rightarrow> nat list \<Rightarrow> nat \<Rightarrow> bool" where
  "back_walk es a [] b \<longleftrightarrow> a = b"
| "back_walk es a (x # xs) b \<longleftrightarrow>
     x < length es \<and> to_node (es ! x) = a \<and> back_walk es (from_node (es ! x)) xs b"

definition weight_sum :: "Edge list \<Rightarrow> nat list \<Rightarrow> int" where
  "weight_sum es xs = sum_list (map (\<lambda>x. weight (es ! x)) xs)"

text \<open>The node vector after the part of \<open>add_edge\<close> that initialises the two nodes.\<close>

definition prepared :: "Edge list \<Rightarrow> DifferenceLogicGraph \<Rightarrow> nat \<Rightarrow> DifferenceLogicNode list" where
  "prepared es g e =
     init_potential (to_node (es ! e))
       (init_potential (from_node (es ! e))
          (ensure_index (nodes g) (max (from_node (es ! e)) (to_node (es ! e)))))"

section \<open>Concrete inputs\<close>

text \<open>
  Choices for the parameters: the first of the least entries comes to the top of the
  queue; a host that refuses every clause; a multimap that puts a new pair before, or
  behind, the pairs of the same key.
\<close>

definition tie_first :: tie_break where
  "tie_first q = 0"

definition host_refuse :: Host where
  "host_refuse = \<lparr>add_clause_r = (\<lambda>cs. False), propagate_r = (\<lambda>cs. False)\<rparr>"

definition place_front :: placement where
  "place_front m k = 0"

definition place_back :: placement where
  "place_back m k = length (mm_range k m)"

definition mk_edge :: "nat \<Rightarrow> nat \<Rightarrow> int \<Rightarrow> int \<Rightarrow> Edge" where
  "mk_edge a b w l = \<lparr>from_node = a, to_node = b, weight_w = word_of_int w, lit = l\<rparr>"

definition diff_atom :: "int \<Rightarrow> string \<Rightarrow> string \<Rightarrow> int \<Rightarrow> TheoryAtom" where
  "diff_atom l a b k =
     \<lparr>term_name = ''diff'', solver_literal = l, guard = Number k, elem_u = a, elem_v = b\<rparr>"

text \<open>Running \<open>add_edge\<close> on a list of edge ids, collecting the results.\<close>

fun add_edges ::
  "bool \<Rightarrow> tie_break \<Rightarrow> Edge list \<Rightarrow> nat list \<Rightarrow> DifferenceLogicGraph \<Rightarrow>
   (DifferenceLogicGraph \<times> nat list list) option" where
  "add_edges ndebug tie es [] g = Some (g, [])"
| "add_edges ndebug tie es (e # r) g =
     (case add_edge ndebug tie es g e of
        None \<Rightarrow> None
      | Some (g', c) \<Rightarrow>
          (case add_edges ndebug tie es r g' of
             None \<Rightarrow> None
           | Some (g'', cs) \<Rightarrow> Some (g'', c # cs)))"

text \<open>
  Scenario S1 of the specification, \<open>a \<rightarrow> b\<close>, \<open>b \<rightarrow> c\<close> and \<open>c \<rightarrow> a\<close> with weights
  \<open>1\<close>, \<open>1\<close> and \<open>-3\<close>, followed by an edge \<open>d \<rightarrow> b\<close> of weight \<open>-3\<close>.
\<close>

definition edges_s1 :: "Edge list" where
  "edges_s1 = [mk_edge 0 1 1 1, mk_edge 1 2 1 2, mk_edge 2 0 (- 3) 3, mk_edge 3 1 (- 3) 4]"

text \<open>Scenario S2: \<open>x \<rightarrow> y\<close> with weight \<open>5\<close> and \<open>y \<rightarrow> x\<close> with weight \<open>-5\<close>.\<close>

definition edges_s2 :: "Edge list" where
  "edges_s2 = [mk_edge 0 1 5 1, mk_edge 1 0 (- 5) 2]"

text \<open>
  Three edges of weight \<open>-2^30\<close>; two of them in a row add up to
  \<open>std::numeric_limits<int>::min()\<close>.
\<close>

definition edges_min :: "Edge list" where
  "edges_min = [mk_edge 0 1 (- 1073741824) 1, mk_edge 0 2 (- 1073741824) 2,
                mk_edge 1 2 (- 1073741824) 3]"



text \<open>
  Two edges \<open>0 \<rightarrow> 1\<close> and \<open>1 \<rightarrow> 0\<close> of weights \<open>-2^30\<close> and \<open>2^30\<close>, followed by an edge
  \<open>0 \<rightarrow> 1\<close> whose weight is the greatest \<open>int\<close>.
\<close>

definition edges_wrap :: "Edge list" where
  "edges_wrap = [mk_edge 0 1 (- 1073741824) 1, mk_edge 1 0 1073741824 2,
                 mk_edge 0 1 2147483647 3]"

text \<open>A single edge of negative weight between two nodes.\<close>

definition edges_neg :: "Edge list" where
  "edges_neg = [mk_edge 0 1 (- 1) 1]"

text \<open>Two atoms with the same literal, registered for one thread.\<close>

definition prop_two :: "placement \<Rightarrow> DifferenceLogicPropagator" where
  "prop_two place =
     init place [diff_atom 5 ''a'' ''b'' 1, diff_atom 5 ''b'' ''c'' 2] 1 new_propagator"

definition ctl0 :: PropagateControl where
  "ctl0 = \<lparr>thread_id = 0, clauses = []\<rparr>"

text \<open>The edges registered with a literal, in the order of their registration.\<close>

definition registered :: "DifferenceLogicPropagator \<Rightarrow> int \<Rightarrow> nat list" where
  "registered p l = filter (\<lambda>i. lit (edges p ! i) = l) [0..<length (edges p)]"

text \<open>What can be seen of a call of \<open>propagate\<close>: the trail of the thread afterwards.\<close>

definition propagate_trail ::
  "bool \<Rightarrow> tie_break \<Rightarrow> Host \<Rightarrow> DifferenceLogicPropagator \<Rightarrow> PropagateControl \<Rightarrow> int list \<Rightarrow> int list option" where
  "propagate_trail ndebug tie host p ctl changes =
     map_option (\<lambda>(ok, p', ctl'). edge_trail (states p' ! thread_id ctl))
       (propagate ndebug tie host p ctl changes)"


text \<open>The graph of scenario S1 after its first two edges.\<close>

definition graph_s1 :: DifferenceLogicGraph where
  "graph_s1 = \<lparr>gamma_q = [], changed_l = [],
      nodes = [\<lparr>outgoing = [0], potential = 0, last_edge = 0, gamma = 0, changed = False\<rparr>,
               \<lparr>outgoing = [1], potential = 0, last_edge = 0, gamma = 0, changed = False\<rparr>,
               \<lparr>outgoing = [], potential = 0, last_edge = 0, gamma = 0, changed = False\<rparr>]\<rparr>"

text \<open>Graph states at quiescence, written out.\<close>

definition mk_node :: "nat list \<Rightarrow> int \<Rightarrow> nat \<Rightarrow> int \<Rightarrow> DifferenceLogicNode" where
  "mk_node out p le gam =
     \<lparr>outgoing = out, potential = p, last_edge = le, gamma = gam, changed = False\<rparr>"

definition mk_graph :: "DifferenceLogicNode list \<Rightarrow> DifferenceLogicGraph" where
  "mk_graph ns = \<lparr>gamma_q = [], changed_l = [], nodes = ns\<rparr>"

definition zero_node :: DifferenceLogicNode where
  "zero_node = \<lparr>outgoing = [], potential = 0, last_edge = 0, gamma = 0, changed = False\<rparr>"

text \<open>Scenario S1 after the third edge was rejected, and after the fourth edge.\<close>

definition graph_s1_rejected :: DifferenceLogicGraph where
  "graph_s1_rejected =
     mk_graph [mk_node [0] (- 3) 2 0, mk_node [1] (- 2) 0 0, mk_node [] 0 1 0]"

definition graph_s1_dirty :: DifferenceLogicGraph where
  "graph_s1_dirty =
     mk_graph [mk_node [0] (- 3) 2 0, mk_node [1] (- 3) 3 0, mk_node [] 0 1 (- 2),
               mk_node [3] 0 0 0]"

text \<open>Scenario S1 after its first two edges and the fourth edge.\<close>

definition graph_s1_accepted :: DifferenceLogicGraph where
  "graph_s1_accepted =
     mk_graph [mk_node [0] 0 0 0, mk_node [1] (- 3) 3 0, mk_node [] (- 2) 1 0,
               mk_node [3] 0 0 0]"

definition graph_s2 :: DifferenceLogicGraph where
  "graph_s2 = mk_graph [mk_node [0] (- 5) 1 0, mk_node [1] 0 0 0]"

definition graph_wrap :: DifferenceLogicGraph where
  "graph_wrap = mk_graph [mk_node [0] 0 0 0, mk_node [1] (- 1073741824) 0 0]"

definition graph_neg :: DifferenceLogicGraph where
  "graph_neg = mk_graph [mk_node [0] 0 0 0, mk_node [] (- 1) 0 0]"

definition graph_min_before :: DifferenceLogicGraph where
  "graph_min_before =
     mk_graph [mk_node [0, 1] 0 0 0, mk_node [] (- 1073741824) 0 0,
               mk_node [] (- 1073741824) 1 0]"

definition graph_min :: DifferenceLogicGraph where
  "graph_min =
     mk_graph [mk_node [0, 1] 0 0 0, mk_node [2] (- 1073741824) 0 0,
               mk_node [] (- 2147483648) 2 0]"

section \<open>The propagator: trail, lookup and conflict clauses\<close>

lemma check_consistency_trail:
  "check_consistency ndebug tie host p state ctl = Some (ok, state', ctl')
   \<Longrightarrow> edge_trail state' = edge_trail state"
proof (induction ndebug tie host p state ctl rule: check_consistency.induct)
  case (1 ndebug tie host p state ctl)
  show ?case
  proof (cases "propagated state < length (edge_trail state)")
    case False
    with "1.prems" show ?thesis by (simp add: check_consistency.simps)
  next
    case True
    from "1.prems" True obtain b g2 ctl2 where
      ce: "check_edges ndebug tie host (edges p)
             (mm_range (edge_trail state ! propagated state) (lit_to_edges p))
             (dl_graph state) ctl = Some (b, g2, ctl2)"
      by (subst (asm) check_consistency.simps) (auto split: option.splits)
    show ?thesis
    proof (cases b)
      case False
      with "1.prems" True ce show ?thesis
        by (subst (asm) check_consistency.simps) auto
    next
      case b: True
      from "1.prems" True ce b have
        "check_consistency ndebug tie host p
           (state\<lparr>dl_graph := g2, propagated := propagated state + 1\<rparr>) ctl2
         = Some (ok, state', ctl')"
        by (subst (asm) check_consistency.simps) simp
      from "1.IH" [OF True ce refl refl b this] show ?thesis by simp
    qed
  qed
qed

text \<open>
  C5, as amended.  \<open>propagate\<close> appends the literals of \<open>changes\<close> themselves to
  \<open>edge_trail\<close>, one entry for each literal and in their order; the edges of a literal
  are looked up later, when \<open>check_consistency\<close> moves the cursor over the entry.
\<close>

theorem propagate_trail_literals:
  assumes "propagate ndebug tie host p ctl changes = Some (ok, p', ctl')"
  shows "edge_trail (states p' ! thread_id ctl)
         = edge_trail (states p ! thread_id ctl) @ changes"
proof -
  from assms have lt: "thread_id ctl < length (states p)"
    by (simp add: propagate_def split: if_splits)
  let ?st = "(states p ! thread_id ctl)
               \<lparr>edge_trail := edge_trail (states p ! thread_id ctl) @ changes\<rparr>"
  from assms lt obtain st2 where
    cc: "check_consistency ndebug tie host p ?st ctl = Some (ok, st2, ctl')"
    and p': "p' = p\<lparr>states := (states p)[thread_id ctl := st2]\<rparr>"
    by (auto simp: propagate_def Let_def split: option.splits)
  from check_consistency_trail [OF cc]
  have "edge_trail st2 = edge_trail (states p ! thread_id ctl) @ changes"
    by simp
  with p' lt show ?thesis by simp
qed

theorem propagate_trail_literals_witness:
  "propagate_trail False tie_first host_refuse (prop_two place_back) ctl0 [5]
   = Some (edge_trail (states (prop_two place_back) ! thread_id ctl0) @ [5])"
proof -
  have "propagate_trail False tie_first host_refuse (prop_two place_back) ctl0 [5] \<noteq> None"
    by code_simp
  then obtain ok p' ctl' where
    r: "propagate False tie_first host_refuse (prop_two place_back) ctl0 [5] = Some (ok, p', ctl')"
    by (auto simp: propagate_trail_def)
  from propagate_trail_literals [OF r] r show ?thesis
    by (simp add: propagate_trail_def)
qed

text \<open>
  C5 as stated fails: the literal \<open>5\<close> controls the edges \<open>0\<close> and \<open>1\<close>, and
  \<open>propagate\<close> with \<open>changes = [5]\<close> leaves the trail \<open>[5]\<close>: one entry, which holds
  the literal.
\<close>

theorem trail_of_edge_indices_counterexample:
  "mm_range 5 (lit_to_edges (prop_two place_back)) = [0, 1] \<and>
   edge_trail (states (prop_two place_back) ! thread_id ctl0) = [] \<and>
   propagate_trail False tie_first host_refuse (prop_two place_back) ctl0 [5] = Some [5]"
  by code_simp



lemma graph_s1_run: "add_edges False tie_first edges_s1 [0, 1] empty_graph = Some (graph_s1, [[], []])"
  by code_simp

lemma takeWhile_eq_Nil_dropWhile: "takeWhile P (dropWhile P xs) = []"
  by (induction xs) auto

lemma mm_range_emplace_same:
  "mm_range k (mm_emplace place k v m)
   = take (place m k mod (length (mm_range k m) + 1)) (mm_range k m) @ v #
     drop (place m k mod (length (mm_range k m) + 1)) (mm_range k m)"
proof -
  define pre where "pre = takeWhile (\<lambda>p. fst p \<noteq> k) m"
  define rest where "rest = dropWhile (\<lambda>p. fst p \<noteq> k) m"
  define grp where "grp = takeWhile (\<lambda>p. fst p = k) rest"
  define post where "post = dropWhile (\<lambda>p. fst p = k) rest"
  define i where "i = place m k mod (length grp + 1)"
  define X where "X = take i grp @ (k, v) # drop i grp"
  have new: "mm_emplace place k v m = pre @ X @ post"
    by (simp add: mm_emplace_def Let_def pre_def rest_def grp_def post_def i_def X_def)
  have pre: "\<forall>p \<in> set pre. fst p \<noteq> k"
    unfolding pre_def by (auto dest: set_takeWhileD)
  have grp: "\<forall>p \<in> set grp. fst p = k"
    unfolding grp_def by (auto dest: set_takeWhileD)
  have X: "\<forall>p \<in> set X. fst p = k" "X \<noteq> []"
    using grp unfolding X_def by (auto dest: in_set_takeD in_set_dropD)
  have post: "takeWhile (\<lambda>p. fst p = k) post = []"
    unfolding post_def by (rule takeWhile_eq_Nil_dropWhile)
  have "dropWhile (\<lambda>p. fst p \<noteq> k) (pre @ X @ post) = X @ post"
  proof -
    have "dropWhile (\<lambda>p. fst p \<noteq> k) (pre @ X @ post) = dropWhile (\<lambda>p. fst p \<noteq> k) (X @ post)"
      using pre by (simp add: dropWhile_append2)
    also have "\<dots> = X @ post"
      using X by (cases X) auto
    finally show ?thesis .
  qed
  moreover have "takeWhile (\<lambda>p. fst p = k) (X @ post) = X"
    using X(1) post by (simp add: takeWhile_append2)
  ultimately have "mm_range k (mm_emplace place k v m) = map snd X"
    by (simp add: mm_range_def new)
  moreover have "mm_range k m = map snd grp"
    by (simp add: mm_range_def grp_def rest_def)
  ultimately show ?thesis
    by (simp add: X_def i_def take_map drop_map)
qed

lemma takeWhile_other_run:
  assumes "k' \<noteq> k" "\<forall>p \<in> set X. fst p = k" "X \<noteq> []" "\<forall>p \<in> set G. fst p = k"
    and "G = [] \<Longrightarrow> post = []"
  shows "takeWhile (\<lambda>p. fst p = k') (pre @ X @ post) = takeWhile (\<lambda>p. fst p = k') (pre @ G @ post)"
proof (induction pre)
  case Nil
  have "takeWhile (\<lambda>p. fst p = k') (X @ post) = []"
    using assms(1,2,3) by (cases X) auto
  moreover have "takeWhile (\<lambda>p. fst p = k') (G @ post) = []"
    using assms(1,4,5) by (cases G) auto
  ultimately show ?case by simp
next
  case (Cons a pre)
  then show ?case by simp
qed

lemma first_run_other:
  assumes "k' \<noteq> k" "\<forall>p \<in> set X. fst p = k" "X \<noteq> []" "\<forall>p \<in> set G. fst p = k"
    and "G = [] \<Longrightarrow> post = []"
  shows "takeWhile (\<lambda>p. fst p = k') (dropWhile (\<lambda>p. fst p \<noteq> k') (pre @ X @ post))
       = takeWhile (\<lambda>p. fst p = k') (dropWhile (\<lambda>p. fst p \<noteq> k') (pre @ G @ post))"
proof (induction pre)
  case Nil
  have "dropWhile (\<lambda>p. fst p \<noteq> k') (X @ post) = dropWhile (\<lambda>p. fst p \<noteq> k') post"
    using assms(1,2) by (simp add: dropWhile_append2)
  moreover have "dropWhile (\<lambda>p. fst p \<noteq> k') (G @ post) = dropWhile (\<lambda>p. fst p \<noteq> k') post"
    using assms(1,4) by (simp add: dropWhile_append2)
  ultimately show ?case by simp
next
  case (Cons a pre)
  show ?case
  proof (cases "fst a = k'")
    case True
    with takeWhile_other_run [OF assms, of pre] show ?thesis by simp
  next
    case False
    with Cons.IH show ?thesis by simp
  qed
qed

lemma mm_range_emplace_other:
  assumes "k' \<noteq> k"
  shows "mm_range k' (mm_emplace place k v m) = mm_range k' m"
proof -
  define pre where "pre = takeWhile (\<lambda>p. fst p \<noteq> k) m"
  define rest where "rest = dropWhile (\<lambda>p. fst p \<noteq> k) m"
  define grp where "grp = takeWhile (\<lambda>p. fst p = k) rest"
  define post where "post = dropWhile (\<lambda>p. fst p = k) rest"
  define i where "i = place m k mod (length grp + 1)"
  define X where "X = take i grp @ (k, v) # drop i grp"
  have new: "mm_emplace place k v m = pre @ X @ post"
    by (simp add: mm_emplace_def Let_def pre_def rest_def grp_def post_def i_def X_def)
  have old: "pre @ grp @ post = m"
    by (simp add: pre_def rest_def grp_def post_def)
  have grp: "\<forall>p \<in> set grp. fst p = k"
    unfolding grp_def by (auto dest: set_takeWhileD)
  have X: "\<forall>p \<in> set X. fst p = k" "X \<noteq> []"
    using grp unfolding X_def by (auto dest: in_set_takeD in_set_dropD)
  have grp_post: "post = []" if g: "grp = []"
  proof -
    have "rest = []"
    proof (cases rest)
      case Nil
      then show ?thesis .
    next
      case (Cons a r)
      then have "fst a = k" using hd_dropWhile [of "\<lambda>p. fst p \<noteq> k" m]
        by (simp add: rest_def)
      with Cons g show ?thesis by (simp add: grp_def)
    qed
    then show ?thesis by (simp add: post_def)
  qed
  from first_run_other [OF assms X grp grp_post, of pre]
  show ?thesis
    by (simp only: mm_range_def new old)
qed

lemma mm_range_emplace_mset:
  "mset (mm_range k' (mm_emplace place k v m))
   = (if k' = k then add_mset v (mset (mm_range k' m)) else mset (mm_range k' m))"
proof (cases "k' = k")
  case True
  have "mset (take i xs @ v # drop i xs) = add_mset v (mset xs)" for i and xs :: "nat list"
    by (metis add_mset_add_single append_take_drop_id mset.simps(2) mset_append union_mset_add_mset_right)
  with True show ?thesis by (simp add: mm_range_emplace_same)
next
  case False
  then show ?thesis by (simp add: mm_range_emplace_other)
qed

lemma map_vert_tables:
  "map_vert v p = (i, p') \<Longrightarrow> edges p' = edges p \<and> lit_to_edges p' = lit_to_edges p"
  by (auto simp: map_vert_def split: option.splits)

lemma add_edge_atom_tables:
  "\<exists>e. lit e = solver_literal atom \<and>
       edges (add_edge_atom place atom p) = edges p @ [e] \<and>
       lit_to_edges (add_edge_atom place atom p)
         = mm_emplace place (solver_literal atom) (length (edges p)) (lit_to_edges p)"
proof -
  obtain u p1 where m1: "map_vert (elem_u atom) p = (u, p1)" by (cases "map_vert (elem_u atom) p")
  obtain v p2 where m2: "map_vert (elem_v atom) p1 = (v, p2)" by (cases "map_vert (elem_v atom) p1")
  from map_vert_tables [OF m1] map_vert_tables [OF m2]
  have "edges p2 = edges p" "lit_to_edges p2 = lit_to_edges p" by simp_all
  then show ?thesis
    by (simp add: add_edge_atom_def Let_def m1 m2)
qed

lemma registered_add_edge_atom:
  "registered (add_edge_atom place atom p) l
   = registered p l @ (if solver_literal atom = l then [length (edges p)] else [])"
proof -
  from add_edge_atom_tables [of atom place p] obtain e where
    e: "lit e = solver_literal atom" "edges (add_edge_atom place atom p) = edges p @ [e]"
    by blast
  have "filter (\<lambda>i. lit ((edges p @ [e]) ! i) = l) [0..<length (edges p)]
      = filter (\<lambda>i. lit (edges p ! i) = l) [0..<length (edges p)]"
    by (rule filter_cong) (simp_all add: nth_append)
  with e show ?thesis by (simp add: registered_def)
qed

lemma add_edge_atom_lookup:
  assumes "mset (mm_range l (lit_to_edges p)) = mset (registered p l)"
  shows "mset (mm_range l (lit_to_edges (add_edge_atom place atom p)))
       = mset (registered (add_edge_atom place atom p) l)"
  using add_edge_atom_tables [of atom place p] assms
  by (auto simp: registered_add_edge_atom mm_range_emplace_mset)

lemma add_atoms_lookup:
  assumes "mset (mm_range l (lit_to_edges p)) = mset (registered p l)"
  shows "mset (mm_range l (lit_to_edges (add_atoms place atoms p)))
       = mset (registered (add_atoms place atoms p) l)"
  using assms
proof (induction atoms arbitrary: p)
  case Nil
  then show ?case by simp
next
  case (Cons a atoms)
  show ?case
  proof (cases "term_name a = ''diff''")
    case True
    with Cons.IH [OF add_edge_atom_lookup [OF Cons.prems, of place a]] show ?thesis by simp
  next
    case False
    with Cons.IH [OF Cons.prems] show ?thesis by simp
  qed
qed

text \<open>
  C7, as amended.  For every literal the lookup yields every registered edge of that
  literal exactly once.  Their order is the order of the pairs in the
  \<open>unordered_multimap\<close>, which depends on where \<open>emplace\<close> puts a pair among those of
  the same key; \<open>check_consistency\<close> processes them in that order.
\<close>

theorem lookup_yields_registered_edges:
  "mset (mm_range l (lit_to_edges (init place atoms n new_propagator)))
   = mset (registered (init place atoms n new_propagator) l)"
proof -
  have "mset (mm_range l (lit_to_edges new_propagator)) = mset (registered new_propagator l)"
    by (simp add: new_propagator_def mm_range_def registered_def)
  from add_atoms_lookup [OF this, of place atoms] show ?thesis
    by (simp add: init_def Let_def registered_def)
qed

text \<open>
  C7 as stated fails when a new pair goes before the pairs of the same key: the edges
  \<open>0\<close> and \<open>1\<close> of literal \<open>5\<close> are looked up as \<open>[1, 0]\<close>.
\<close>

theorem lookup_registration_order_counterexample:
  "registered (prop_two place_front) 5 = [0, 1] \<and>
   mm_range 5 (lit_to_edges (prop_two place_front)) = [1, 0]"
  by code_simp

text \<open>When a new pair goes behind the pairs of the same key, the lookup is in registration order.\<close>

lemma add_edge_atom_lookup_back:
  assumes "mm_range l (lit_to_edges p) = registered p l"
  shows "mm_range l (lit_to_edges (add_edge_atom place_back atom p))
       = registered (add_edge_atom place_back atom p) l"
  using add_edge_atom_tables [of atom place_back p] assms
  by (auto simp: registered_add_edge_atom mm_range_emplace_same mm_range_emplace_other place_back_def)

lemma add_atoms_lookup_back:
  assumes "mm_range l (lit_to_edges p) = registered p l"
  shows "mm_range l (lit_to_edges (add_atoms place_back atoms p))
       = registered (add_atoms place_back atoms p) l"
  using assms
proof (induction atoms arbitrary: p)
  case Nil
  then show ?case by simp
next
  case (Cons a atoms)
  show ?case
  proof (cases "term_name a = ''diff''")
    case True
    with Cons.IH [OF add_edge_atom_lookup_back [OF Cons.prems, of a]] show ?thesis by simp
  next
    case False
    with Cons.IH [OF Cons.prems] show ?thesis by simp
  qed
qed

lemma lookup_registration_order_place_back:
  "mm_range l (lit_to_edges (init place_back atoms n new_propagator))
   = registered (init place_back atoms n new_propagator) l"
proof -
  have "mm_range l (lit_to_edges new_propagator) = registered new_propagator l"
    by (simp add: new_propagator_def mm_range_def registered_def)
  from add_atoms_lookup_back [OF this, of atoms] show ?thesis
    by (simp add: init_def Let_def registered_def)
qed

section \<open>The consistency graph: evaluation and the first edge\<close>

subsection \<open>Arithmetic on \<open>int\<close>\<close>

lemma wrap32_range: "- 2147483648 \<le> wrap32 x" "wrap32 x < 2147483648"
  by (simp_all add: wrap32_def)

lemma wrap32_id: "- 2147483648 \<le> x \<Longrightarrow> x < 2147483648 \<Longrightarrow> wrap32 x = x"
  by (simp add: wrap32_def)

lemma wrap32_mod: "wrap32 x mod 4294967296 = x mod 4294967296"
proof -
  have "wrap32 x = (x + 2147483648) mod 4294967296 + 2147483648 - 4294967296"
    by (simp add: wrap32_def)
  then have "wrap32 x mod 4294967296 = ((x + 2147483648) mod 4294967296 + 2147483648) mod 4294967296"
    by (metis minus_mod_self2)
  also have "\<dots> = (x + 2147483648 + 2147483648) mod 4294967296"
    by (rule mod_add_left_eq)
  also have "\<dots> = x mod 4294967296" by simp
  finally show ?thesis .
qed

lemma wrap32_cong: "x mod 4294967296 = y mod 4294967296 \<Longrightarrow> wrap32 x = wrap32 y"
proof -
  assume "x mod 4294967296 = y mod 4294967296"
  then have "(x + 2147483648) mod 4294967296 = (y + 2147483648) mod 4294967296"
    by (rule mod_add_cong) simp
  then show ?thesis by (simp add: wrap32_def)
qed

lemma wrap32_idem [simp]: "wrap32 (wrap32 x) = wrap32 x"
  by (rule wrap32_cong) (rule wrap32_mod)

lemma wrap32_add_left: "wrap32 (wrap32 a + b) = wrap32 (a + b)"
  by (rule wrap32_cong) (rule mod_add_cong [OF wrap32_mod refl])

lemma wrap32_add_right: "wrap32 (a + wrap32 b) = wrap32 (a + b)"
  by (rule wrap32_cong) (rule mod_add_cong [OF refl wrap32_mod])

lemma wrap32_diff_left: "wrap32 (wrap32 a - b) = wrap32 (a - b)"
  by (rule wrap32_cong) (rule mod_diff_cong [OF wrap32_mod refl])

lemma wrap32_diff_right: "wrap32 (a - wrap32 b) = wrap32 (a - b)"
  by (rule wrap32_cong) (rule mod_diff_cong [OF refl wrap32_mod])

lemma diff32_eq: "diff32 a w b = wrap32 (a + w - b)"
  by (simp add: diff32_def wrap32_diff_left)

lemma diff32_exact:
  "- 2147483648 \<le> a + w - b \<Longrightarrow> a + w - b < 2147483648 \<Longrightarrow> diff32 a w b = a + w - b"
  by (simp add: diff32_eq wrap32_id)

lemma wrap32_add_diff32: "wrap32 (p + diff32 a w p) = wrap32 (a + w)"
  by (simp add: diff32_eq wrap32_add_right)

lemma weight_range: "- 2147483648 \<le> weight x" "weight x < 2147483648"
  using sint_ge [of "weight_w x"] sint_lt [of "weight_w x"] by (simp_all add: weight_def)

lemma wrap32_weight [simp]: "wrap32 (weight x) = weight x"
  by (rule wrap32_id) (rule weight_range)+

lemma diff32_first [simp]: "diff32 0 (weight x) 0 = weight x"
  by (simp add: diff32_eq)

lemma diff32_same [simp]: "diff32 p (weight x) p = weight x"
  by (simp add: diff32_eq)

lemma wrap32_0 [simp]: "wrap32 0 = 0"
  by (simp add: wrap32_def)

lemma wrap32_eq_iff: "wrap32 x = wrap32 y \<longleftrightarrow> x mod 4294967296 = y mod 4294967296"
  using wrap32_cong [of x y] wrap32_mod [of x] wrap32_mod [of y] by metis

subsection \<open>The first edge\<close>

lemma relax_stop: "gamma_q g = [] \<or> gamma (nodes g ! u) \<noteq> 0 \<Longrightarrow> relax ndebug tie es u g = Some g"
  by (subst relax.simps) auto

lemma drain_gamma_empty: "gamma_q g = [] \<Longrightarrow> drain_gamma tie g = Some g"
  by (subst drain_gamma.simps) simp

lemma pq_pop_single: "pq_pop tie [x] = []"
  by (simp add: pq_pop_def)

lemma length_ensure_index: "length (ensure_index c i) = max (length c) (Suc i)"
  by (simp add: ensure_index_def)

lemma nth_ensure_index:
  "n < length (ensure_index c i) \<Longrightarrow>
   ensure_index c i ! n = (if n < length c then c ! n else new_node)"
  by (auto simp: ensure_index_def nth_append)

lemma length_init_potential [simp]: "length (init_potential i ns) = length ns"
  by (simp add: init_potential_def)

lemma nth_init_potential:
  "n < length ns \<Longrightarrow>
   init_potential i ns ! n
   = (if n = i \<and> potential (ns ! n) = undefined_potential then (ns ! n)\<lparr>potential := 0\<rparr>
      else ns ! n)"
  by (auto simp: init_potential_def nth_list_update)

lemma first_edge_nonneg:
  assumes e: "e < length es" and w: "0 \<le> weight (es ! e)"
  shows "\<exists>g'. add_edge ndebug tie es empty_graph e = Some (g', []) \<and>
           potential (nodes g' ! from_node (es ! e)) = 0 \<and>
           potential (nodes g' ! to_node (es ! e)) = 0 \<and>
           outgoing (nodes g' ! from_node (es ! e)) = [e]"
proof -
  define u where "u = from_node (es ! e)"
  define v where "v = to_node (es ! e)"
  define w where "w = weight (es ! e)"
  have dw [simp]: "diff32 0 w 0 = w" "wrap32 w = w" by (simp_all add: w_def)
  define ns where "ns = init_potential v (init_potential u (ensure_index [] (max u v)))"
  have len: "length ns = Suc (max u v)"
    by (simp add: ns_def length_ensure_index)
  have pu: "potential (ns ! u) = 0" and pv: "potential (ns ! v) = 0"
    by (simp_all add: ns_def nth_init_potential length_ensure_index nth_ensure_index new_node_def)
  have sc: "\<forall>i < length ns. gamma (ns ! i) = 0 \<and> \<not> changed (ns ! i) \<and> outgoing (ns ! i) = []"
    by (simp add: ns_def nth_init_potential length_ensure_index nth_ensure_index new_node_def)
  define g1 where "g1 = empty_graph\<lparr>nodes := ns[v := (ns ! v)\<lparr>gamma := w\<rparr>]\<rparr>"
  have st: "start_edge es empty_graph e = g1"
    using w pu pv
    by (simp add: start_edge_def Let_def g1_def empty_graph_def flip: u_def v_def w_def ns_def)
  have rl: "relax ndebug tie es u g1 = Some g1"
    by (rule relax_stop) (simp add: g1_def empty_graph_def)
  have gu: "\<not> gamma (nodes g1 ! u) < 0"
    using w sc len by (auto simp: g1_def nth_list_update w_def)
  define g2 where "g2 = g1\<lparr>nodes := (nodes g1)[u := (nodes g1 ! u)\<lparr>outgoing := outgoing (nodes g1 ! u) @ [e]\<rparr>]\<rparr>"
  define g3 where "g3 = g2\<lparr>nodes := (nodes g2)[v := (nodes g2 ! v)\<lparr>gamma := 0\<rparr>]\<rparr>"
  have rs: "reset_scratch tie v g2 = Some g3"
    by (simp add: reset_scratch_def drain_gamma_empty g2_def g1_def empty_graph_def g3_def)
  have ae: "add_edge ndebug tie es empty_graph e = Some (g3, [])"
    using e gu rs by (simp add: add_edge_def install_def Let_def st rl g2_def flip: u_def v_def)
  moreover have "potential (nodes g3 ! u) = 0" "potential (nodes g3 ! v) = 0"
    "outgoing (nodes g3 ! u) = [e]"
    using pu pv sc len by (auto simp: g3_def g2_def g1_def nth_list_update)
  ultimately show ?thesis unfolding u_def v_def by blast
qed

lemma first_edge_nodes:
  assumes "ns = init_potential v (init_potential u (ensure_index [] m))" and "m = max u v"
  shows "length ns = Suc (max u v)" and "ns ! u = zero_node" and "ns ! v = zero_node"
  using assms
  by (simp_all add: nth_init_potential length_ensure_index nth_ensure_index new_node_def
      zero_node_def)

lemma first_edge_self_loop:
  assumes e: "e < length es" and w: "weight (es ! e) < 0"
    and uv: "from_node (es ! e) = to_node (es ! e)"
  shows "\<exists>g'. add_edge ndebug tie es empty_graph e = Some (g', [e]) \<and>
           potential (nodes g' ! from_node (es ! e)) = 0 \<and>
           outgoing (nodes g' ! from_node (es ! e)) = []"
proof -
  define v where "v = to_node (es ! e)"
  define w where "w = weight (es ! e)"
  have dw [simp]: "diff32 0 w 0 = w" "wrap32 w = w" by (simp_all add: w_def)
  define ns where "ns = init_potential v (init_potential v (ensure_index [] v))"
  have u: "from_node (es ! e) = v" by (simp add: uv v_def)
  have ns: "length ns = Suc v" "ns ! v = zero_node"
    using first_edge_nodes [OF ns_def] by simp_all
  define g1 where "g1 = empty_graph\<lparr>gamma_q := [\<lparr>node_idx = v, upd_gamma = w\<rparr>],
       nodes := ns[v := zero_node\<lparr>gamma := w, last_edge := e\<rparr>]\<rparr>"
  have st: "start_edge es empty_graph e = g1"
    using w ns
    by (simp add: start_edge_def Let_def g1_def empty_graph_def pq_push_def u zero_node_def
        flip: v_def w_def ns_def)
  have gv: "gamma (nodes g1 ! v) = w" "last_edge (nodes g1 ! v) = e"
    using ns by (simp_all add: g1_def)
  have rl: "relax ndebug tie es v g1 = Some g1"
    using gv w by (intro relax_stop) (simp add: w_def)
  have cyc: "neg_cycle_of es g1 v = Some [e]"
    using e gv u by (simp add: neg_cycle_of_def Let_def gather_cycle.simps)
  define g3 where "g3 = empty_graph\<lparr>nodes := ns[v := zero_node\<lparr>last_edge := e\<rparr>]\<rparr>"
  have "drain_gamma tie (g1\<lparr>nodes := (nodes g1)[v := (nodes g1 ! v)\<lparr>gamma := 0\<rparr>]\<rparr>) = Some g3"
    using ns
    by (subst drain_gamma.simps)
       (simp add: g1_def g3_def empty_graph_def pq_top_def pq_pop_single drain_gamma_empty
          Let_def zero_node_def)
  then have rs: "reset_scratch tie v g1 = Some g3"
    by (simp add: reset_scratch_def g3_def empty_graph_def)
  have ae: "add_edge ndebug tie es empty_graph e = Some (g3, [e])"
    using e w gv by (simp add: add_edge_def Let_def st rl u cyc rs w_def flip: v_def)
  moreover have "potential (nodes g3 ! v) = 0" "outgoing (nodes g3 ! v) = []"
    using ns by (auto simp: g3_def zero_node_def)
  ultimately show ?thesis unfolding u by blast
qed

lemma first_edge_negative:
  assumes e: "e < length es" and w: "weight (es ! e) < 0"
    and uv: "from_node (es ! e) \<noteq> to_node (es ! e)"
  shows "\<exists>g'. add_edge ndebug tie es empty_graph e = Some (g', []) \<and>
           potential (nodes g' ! from_node (es ! e)) = 0 \<and>
           potential (nodes g' ! to_node (es ! e)) = weight (es ! e) \<and>
           outgoing (nodes g' ! from_node (es ! e)) = [e]"
proof -
  define u where "u = from_node (es ! e)"
  define v where "v = to_node (es ! e)"
  define w where "w = weight (es ! e)"
  have dw [simp]: "diff32 0 w 0 = w" "wrap32 w = w" by (simp_all add: w_def)
  define ns where "ns = init_potential v (init_potential u (ensure_index [] (max u v)))"
  note ns = first_edge_nodes [OF ns_def refl]
  have ne: "u \<noteq> v" using uv by (simp add: u_def v_def)
  define g1 where "g1 = empty_graph\<lparr>gamma_q := [\<lparr>node_idx = v, upd_gamma = w\<rparr>],
       nodes := ns[v := zero_node\<lparr>gamma := w, last_edge := e\<rparr>]\<rparr>"
  have st: "start_edge es empty_graph e = g1"
    using w ns
    by (simp add: start_edge_def Let_def g1_def empty_graph_def pq_push_def zero_node_def
        flip: u_def v_def w_def ns_def)
  define g2 where "g2 = empty_graph\<lparr>changed_l := [v],
       nodes := ns[v := zero_node\<lparr>potential := w, last_edge := e, changed := True\<rparr>]\<rparr>"
  have vis: "visit ndebug es v g1 = Some (g2\<lparr>gamma_q := [\<lparr>node_idx = v, upd_gamma = w\<rparr>]\<rparr>)"
    using ns
    by (simp add: visit_def mark_changed_def Let_def g1_def g2_def pq_top_def empty_graph_def
        zero_node_def)
  have rl: "relax ndebug tie es u g1 = Some g2"
  proof -
    have "gamma (nodes g1 ! u) = 0" "\<not> changed (nodes g1 ! v)"
      using ne ns by (simp_all add: g1_def zero_node_def)
    moreover have "relax ndebug tie es u g2 = Some g2"
      by (rule relax_stop) (simp add: g2_def empty_graph_def)
    moreover have "gamma_q g1 = [\<lparr>node_idx = v, upd_gamma = w\<rparr>]"
      "length (nodes g1) = Suc (max u v)"
      using ns by (simp_all add: g1_def)
    moreover have "g2\<lparr>gamma_q := pq_pop tie [\<lparr>node_idx = v, upd_gamma = w\<rparr>]\<rparr> = g2"
      by (simp add: g2_def empty_graph_def pq_pop_single)
    ultimately show ?thesis
      by (subst relax.simps) (simp add: vis pq_top_def)
  qed
  have gu: "\<not> gamma (nodes g2 ! u) < 0"
    using ns ne by (simp add: g2_def zero_node_def)
  define g3 where "g3 = empty_graph\<lparr>nodes :=
       ns[v := zero_node\<lparr>potential := w, last_edge := e\<rparr>, u := zero_node\<lparr>outgoing := [e]\<rparr>]\<rparr>"
  have rs: "reset_scratch tie v
      (g2\<lparr>nodes := (nodes g2)[u := (nodes g2 ! u)\<lparr>outgoing := outgoing (nodes g2 ! u) @ [e]\<rparr>]\<rparr>)
      = Some g3"
    using ns ne
    by (simp add: reset_scratch_def drain_gamma_empty g2_def g3_def empty_graph_def
        list_update_swap [of u v] zero_node_def)
  have ae: "add_edge ndebug tie es empty_graph e = Some (g3, [])"
    using e gu rs by (simp add: add_edge_def install_def Let_def st rl flip: u_def v_def)
  moreover have "potential (nodes g3 ! u) = 0" "potential (nodes g3 ! v) = w"
    "outgoing (nodes g3 ! u) = [e]"
    using ns ne by (auto simp: g3_def zero_node_def)
  ultimately show ?thesis unfolding u_def v_def w_def by blast
qed

text \<open>
  C6, as amended.  The first edge \<open>(u \<rightarrow> v, w)\<close> added to an empty graph is rejected,
  with the cycle that consists of the edge itself, exactly when \<open>w < 0\<close> and \<open>u = v\<close>;
  otherwise it is installed.  The potential of \<open>u\<close> is \<open>0\<close> afterwards; the potential of
  \<open>v\<close> is \<open>w\<close> when \<open>w < 0\<close> and \<open>u \<noteq> v\<close>, and \<open>0\<close> otherwise.
\<close>

theorem first_edge:
  assumes "e < length es"
  shows "\<exists>g' cyc. add_edge ndebug tie es empty_graph e = Some (g', cyc) \<and>
           (cyc = [] \<longleftrightarrow> 0 \<le> weight (es ! e) \<or> from_node (es ! e) \<noteq> to_node (es ! e)) \<and>
           (cyc \<noteq> [] \<longrightarrow> cyc = [e]) \<and>
           outgoing (nodes g' ! from_node (es ! e)) = (if cyc = [] then [e] else []) \<and>
           potential (nodes g' ! from_node (es ! e)) = 0 \<and>
           potential (nodes g' ! to_node (es ! e))
             = (if weight (es ! e) < 0 \<and> from_node (es ! e) \<noteq> to_node (es ! e)
                then weight (es ! e) else 0)"
proof (cases "0 \<le> weight (es ! e)")
  case True
  from first_edge_nonneg [OF assms True, of ndebug tie] True show ?thesis by auto
next
  case neg: False
  show ?thesis
  proof (cases "from_node (es ! e) = to_node (es ! e)")
    case True
    from first_edge_self_loop [OF assms _ True, of ndebug tie] neg True show ?thesis by auto
  next
    case False
    from first_edge_negative [OF assms _ False, of ndebug tie] neg False show ?thesis by auto
  qed
qed


theorem first_edge_witness:
  "\<exists>g' cyc. add_edge False tie_first edges_neg empty_graph 0 = Some (g', cyc) \<and>
     cyc = [] \<and> outgoing (nodes g' ! 0) = [0] \<and>
     potential (nodes g' ! 0) = 0 \<and> potential (nodes g' ! 1) = - 1"
proof -
  have "0 < length edges_neg" "from_node (edges_neg ! 0) = 0" "to_node (edges_neg ! 0) = 1"
    "weight (edges_neg ! 0) = - 1"
    by (simp_all add: edges_neg_def mk_edge_def weight_def)
  with first_edge [of 0 edges_neg False tie_first] show ?thesis
    by auto
qed

text \<open>
  C6 as stated fails: on an empty graph the edge \<open>0 \<rightarrow> 1\<close> of weight \<open>-1\<close> is installed,
  and node \<open>1\<close> gets the potential \<open>-1\<close>.
\<close>

theorem first_edge_counterexample:
  "add_edge False tie_first edges_neg empty_graph 0 = Some (graph_neg, []) \<and>
   weight (edges_neg ! 0) = - 1 \<and>
   outgoing (nodes graph_neg ! 0) = [0] \<and>
   potential (nodes graph_neg ! 1) = - 1"
  by code_simp

text \<open>
  C10: the code misses the claim where a potential reaches the value of
  \<open>undefined_potential\<close>.  After the edges \<open>0 \<rightarrow> 1\<close> and \<open>0 \<rightarrow> 2\<close> of weight \<open>-2^30\<close> node
  \<open>2\<close> has a defined value.  Adding \<open>1 \<rightarrow> 2\<close> of weight \<open>-2^30\<close> is accepted and lowers the
  potential of node \<open>2\<close> to \<open>-2^31\<close>, so that \<open>node_value_defined\<close> is false for an
  endpoint of the edge just added, which had a defined value before.
\<close>

theorem endpoint_undefined_at_int_min:
  "add_edges False tie_first edges_min [0, 1] empty_graph = Some (graph_min_before, [[], []]) \<and>
   node_value_defined graph_min_before 2 \<and>
   add_edge False tie_first edges_min graph_min_before 2 = Some (graph_min, []) \<and>
   to_node (edges_min ! 2) = 2 \<and>
   \<not> node_value_defined graph_min 2"
  by code_simp

section \<open>The consistency graph: the relaxation loop\<close>

subsection \<open>The priority queue\<close>

lemma set_pq_push: "set (pq_push x q) = insert x (set q)"
  by (auto simp: pq_push_def split: list.splits)

lemma pq_push_not_Nil: "pq_push x q \<noteq> []"
  by (simp add: pq_push_def split: list.splits)

lemma hd_pq_push:
  "q \<noteq> [] \<Longrightarrow> upd_gamma (hd q) \<le> upd_gamma x \<Longrightarrow> hd (pq_push x q) = hd q"
  by (cases q) (simp_all add: pq_push_def)

lemma head_least_pq_push:
  assumes "\<forall>y \<in> set q. upd_gamma (hd q) \<le> upd_gamma y"
  shows "\<forall>y \<in> set (pq_push x q). upd_gamma (hd (pq_push x q)) \<le> upd_gamma y"
proof (cases q)
  case Nil
  then show ?thesis by (simp add: pq_push_def)
next
  case (Cons t r)
  with assms show ?thesis by (auto simp: pq_push_def)
qed

lemma pq_least_least:
  "i \<in> set (pq_least q) \<Longrightarrow> i < length q \<and> (\<forall>x \<in> set q. upd_gamma (q ! i) \<le> upd_gamma x)"
  by (simp add: pq_least_def)

lemma set_take_nth_drop:
  "i < length r \<Longrightarrow> set (r ! i # take i r @ drop (Suc i) r) = set r"
proof -
  assume "i < length r"
  then have "r = take i r @ r ! i # drop (Suc i) r" by (rule id_take_nth_drop)
  then have "set r = set (take i r @ r ! i # drop (Suc i) r)" by simp
  then show ?thesis by auto
qed

lemma set_pq_pop: "set (pq_pop tie q) = set (tl q)"
proof (cases "tl q = []")
  case True
  then show ?thesis by (simp add: pq_pop_def)
next
  case False
  from pq_select_less [OF False] have "pq_select tie (tl q) < length (tl q)" .
  from set_take_nth_drop [OF this] False show ?thesis
    by (simp add: pq_pop_def Let_def)
qed

lemma head_least_pq_pop:
  "\<forall>y \<in> set (pq_pop tie q). upd_gamma (hd (pq_pop tie q)) \<le> upd_gamma y"
proof (cases "tl q = []")
  case True
  then show ?thesis by (simp add: pq_pop_def)
next
  case False
  let ?i = "pq_select tie (tl q)"
  from pq_least_least [OF pq_select_in_least [OF False]]
  have i: "?i < length (tl q)" "\<forall>x \<in> set (tl q). upd_gamma (tl q ! ?i) \<le> upd_gamma x"
    by auto
  have "hd (pq_pop tie q) = tl q ! ?i"
    using False by (simp add: pq_pop_def Let_def)
  with i(2) show ?thesis by (simp add: set_pq_pop)
qed

subsection \<open>Relaxing one edge\<close>

lemma relax_edge_cases:
  assumes "relax_edge es s st g = Some g'"
  obtains
    (keep) "st < length es" "to_node (es ! st) < length (nodes g)" "g' = g"
      "changed (nodes g ! to_node (es ! st)) \<or>
       gamma (nodes g ! to_node (es ! st))
         \<le> diff32 (potential (nodes g ! s)) (weight (es ! st)) (potential (nodes g ! to_node (es ! st)))"
  | (lower) "st < length es" "to_node (es ! st) < length (nodes g)"
      "\<not> changed (nodes g ! to_node (es ! st))"
      "diff32 (potential (nodes g ! s)) (weight (es ! st)) (potential (nodes g ! to_node (es ! st)))
         < gamma (nodes g ! to_node (es ! st))"
      "g' = g\<lparr>nodes := (nodes g)[to_node (es ! st) := (nodes g ! to_node (es ! st))
                 \<lparr>gamma := diff32 (potential (nodes g ! s)) (weight (es ! st)) (potential (nodes g ! to_node (es ! st))),
                  last_edge := st\<rparr>],
              gamma_q := pq_push \<lparr>node_idx = to_node (es ! st),
                 upd_gamma = diff32 (potential (nodes g ! s)) (weight (es ! st)) (potential (nodes g ! to_node (es ! st)))\<rparr> (gamma_q g)\<rparr>"
  using assms by (auto simp: relax_edge_def Let_def split: if_splits)

lemma relax_edge_frame:
  assumes "relax_edge es s st g = Some g'"
  shows "length (nodes g') = length (nodes g)" and "changed_l g' = changed_l g"
    and "potential (nodes g' ! n) = potential (nodes g ! n)"
    and "changed (nodes g' ! n) = changed (nodes g ! n)"
    and "outgoing (nodes g' ! n) = outgoing (nodes g ! n)"
  using assms by (cases rule: relax_edge_cases; simp add: nth_list_update)+

lemma relax_edge_mono:
  assumes "relax_edge es s st g = Some g'"
  shows "gamma (nodes g' ! n) \<le> gamma (nodes g ! n)"
  using assms by (cases rule: relax_edge_cases) (auto simp: nth_list_update)

lemma relax_edge_queue:
  assumes "relax_edge es s st g = Some g'"
  shows "set (gamma_q g) \<subseteq> set (gamma_q g')"
  using assms by (cases rule: relax_edge_cases) (auto simp: set_pq_push)

lemma relax_edge_same:
  assumes "relax_edge es s st g = Some g'" and "gamma (nodes g' ! n) = gamma (nodes g ! n)"
  shows "last_edge (nodes g' ! n) = last_edge (nodes g ! n)"
  using assms by (cases rule: relax_edge_cases) (auto simp: nth_list_update split: if_splits)

lemma relax_edge_lowered:
  assumes "relax_edge es s st g = Some g'" and "gamma (nodes g' ! n) < gamma (nodes g ! n)"
  shows "\<not> changed (nodes g ! n) \<and> n < length (nodes g) \<and> st < length es \<and>
         to_node (es ! st) = n \<and> last_edge (nodes g' ! n) = st \<and>
         gamma (nodes g' ! n) = diff32 (potential (nodes g ! s)) (weight (es ! st)) (potential (nodes g ! n)) \<and>
         \<lparr>node_idx = n, upd_gamma = gamma (nodes g' ! n)\<rparr> \<in> set (gamma_q g')"
  using assms
  by (cases rule: relax_edge_cases) (auto simp: nth_list_update set_pq_push split: if_splits)

lemma relax_edge_relaxed:
  assumes "relax_edge es s st g = Some g'" and "\<not> changed (nodes g ! to_node (es ! st))"
  shows "gamma (nodes g' ! to_node (es ! st))
         \<le> diff32 (potential (nodes g ! s)) (weight (es ! st)) (potential (nodes g ! to_node (es ! st)))"
  using assms by (cases rule: relax_edge_cases) auto

lemma relax_edge_new:
  assumes "relax_edge es s st g = Some g'" and "x \<in> set (gamma_q g')"
  shows "x \<in> set (gamma_q g) \<or>
         (st < length es \<and> node_idx x = to_node (es ! st) \<and> node_idx x < length (nodes g) \<and>
          \<not> changed (nodes g ! node_idx x) \<and>
          upd_gamma x = diff32 (potential (nodes g ! s)) (weight (es ! st)) (potential (nodes g ! node_idx x)) \<and>
          upd_gamma x < gamma (nodes g ! node_idx x) \<and>
          gamma (nodes g' ! node_idx x) = upd_gamma x)"
  using assms by (cases rule: relax_edge_cases) (auto simp: set_pq_push)

lemma relax_edge_hd:
  assumes "relax_edge es s st g = Some g'" and "gamma_q g \<noteq> []"
    and "upd_gamma (hd (gamma_q g))
         \<le> diff32 (potential (nodes g ! s)) (weight (es ! st)) (potential (nodes g ! to_node (es ! st)))"
  shows "gamma_q g' \<noteq> [] \<and> hd (gamma_q g') = hd (gamma_q g)"
  using assms by (cases rule: relax_edge_cases) (auto simp: hd_pq_push pq_push_not_Nil)

lemma relax_edge_head_least:
  assumes "relax_edge es s st g = Some g'"
    and "\<forall>y \<in> set (gamma_q g). upd_gamma (hd (gamma_q g)) \<le> upd_gamma y"
  shows "\<forall>y \<in> set (gamma_q g'). upd_gamma (hd (gamma_q g')) \<le> upd_gamma y"
  using assms by (cases rule: relax_edge_cases) (auto simp: head_least_pq_push)

lemma relax_edge_total:
  assumes "st < length es" and "to_node (es ! st) < length (nodes g)"
  shows "\<exists>g'. relax_edge es s st g = Some g'"
  using assms by (simp add: relax_edge_def Let_def)

subsection \<open>Relaxing the outgoing edges of a node\<close>

lemma relax_out_Cons:
  assumes "relax_out es s (a # os) g = Some g'"
  obtains g1 where "relax_edge es s a g = Some g1" and "relax_out es s os g1 = Some g'"
  using assms by (auto split: option.splits)

lemma relax_out_frame:
  assumes "relax_out es s os g = Some g'"
  shows "length (nodes g') = length (nodes g)" and "changed_l g' = changed_l g"
    and "potential (nodes g' ! n) = potential (nodes g ! n)"
    and "changed (nodes g' ! n) = changed (nodes g ! n)"
    and "outgoing (nodes g' ! n) = outgoing (nodes g ! n)"
  using assms
proof (induction os arbitrary: g)
  case Nil
  { case 1 then show ?case by simp }
  { case 2 then show ?case by simp }
  { case 3 then show ?case by simp }
  { case 4 then show ?case by simp }
  { case 5 then show ?case by simp }
next
  case (Cons a os)
  { case 1 then show ?case
      by (elim relax_out_Cons) (simp add: Cons.IH(1) relax_edge_frame) }
  { case 2 then show ?case
      by (elim relax_out_Cons) (simp add: Cons.IH(2) relax_edge_frame) }
  { case 3 then show ?case
      by (elim relax_out_Cons) (simp add: Cons.IH(3) relax_edge_frame) }
  { case 4 then show ?case
      by (elim relax_out_Cons) (simp add: Cons.IH(4) relax_edge_frame) }
  { case 5 then show ?case
      by (elim relax_out_Cons) (simp add: Cons.IH(5) relax_edge_frame) }
qed

lemma relax_out_mono:
  "relax_out es s os g = Some g' \<Longrightarrow> gamma (nodes g' ! n) \<le> gamma (nodes g ! n)"
proof (induction os arbitrary: g)
  case Nil
  then show ?case by simp
next
  case (Cons a os)
  from Cons.prems obtain g1 where
    g1: "relax_edge es s a g = Some g1" "relax_out es s os g1 = Some g'"
    by (rule relax_out_Cons)
  from Cons.IH [OF g1(2)] relax_edge_mono [OF g1(1), of n] show ?case by simp
qed

lemma relax_out_queue:
  "relax_out es s os g = Some g' \<Longrightarrow> set (gamma_q g) \<subseteq> set (gamma_q g')"
proof (induction os arbitrary: g)
  case Nil
  then show ?case by simp
next
  case (Cons a os)
  from Cons.prems obtain g1 where
    g1: "relax_edge es s a g = Some g1" "relax_out es s os g1 = Some g'"
    by (rule relax_out_Cons)
  from Cons.IH [OF g1(2)] relax_edge_queue [OF g1(1)] show ?case by blast
qed

lemma relax_out_same:
  "relax_out es s os g = Some g' \<Longrightarrow> gamma (nodes g' ! n) = gamma (nodes g ! n)
   \<Longrightarrow> last_edge (nodes g' ! n) = last_edge (nodes g ! n)"
proof (induction os arbitrary: g)
  case Nil
  then show ?case by simp
next
  case (Cons a os)
  from Cons.prems(1) obtain g1 where
    g1: "relax_edge es s a g = Some g1" "relax_out es s os g1 = Some g'"
    by (rule relax_out_Cons)
  from relax_out_mono [OF g1(2), of n] relax_edge_mono [OF g1(1), of n] Cons.prems(2)
  have eq: "gamma (nodes g' ! n) = gamma (nodes g1 ! n)" "gamma (nodes g1 ! n) = gamma (nodes g ! n)"
    by simp_all
  from Cons.IH [OF g1(2) eq(1)] relax_edge_same [OF g1(1) eq(2)] show ?case by simp
qed

lemma relax_out_lowered:
  "relax_out es s os g = Some g' \<Longrightarrow> gamma (nodes g' ! n) < gamma (nodes g ! n)
   \<Longrightarrow> \<not> changed (nodes g ! n) \<and> n < length (nodes g) \<and>
       (\<exists>st \<in> set os. st < length es \<and> to_node (es ! st) = n \<and> last_edge (nodes g' ! n) = st \<and>
          gamma (nodes g' ! n)
            = diff32 (potential (nodes g ! s)) (weight (es ! st)) (potential (nodes g ! n))) \<and>
       \<lparr>node_idx = n, upd_gamma = gamma (nodes g' ! n)\<rparr> \<in> set (gamma_q g')"
proof (induction os arbitrary: g)
  case Nil
  then show ?case by simp
next
  case (Cons a os)
  from Cons.prems(1) obtain g1 where
    g1: "relax_edge es s a g = Some g1" "relax_out es s os g1 = Some g'"
    by (rule relax_out_Cons)
  note fr = relax_edge_frame [OF g1(1)]
  show ?case
  proof (cases "gamma (nodes g' ! n) < gamma (nodes g1 ! n)")
    case True
    from Cons.IH [OF g1(2) True] show ?thesis
      by (auto simp: fr)
  next
    case False
    with relax_out_mono [OF g1(2), of n]
    have eq: "gamma (nodes g' ! n) = gamma (nodes g1 ! n)" by simp
    with Cons.prems(2) have lt: "gamma (nodes g1 ! n) < gamma (nodes g ! n)" by simp
    from relax_edge_lowered [OF g1(1) lt] relax_out_same [OF g1(2) eq]
      relax_out_queue [OF g1(2)] eq
    show ?thesis by auto
  qed
qed

lemma relax_out_relaxed:
  "relax_out es s os g = Some g' \<Longrightarrow> st \<in> set os \<Longrightarrow> \<not> changed (nodes g ! to_node (es ! st))
   \<Longrightarrow> gamma (nodes g' ! to_node (es ! st))
       \<le> diff32 (potential (nodes g ! s)) (weight (es ! st)) (potential (nodes g ! to_node (es ! st)))"
proof (induction os arbitrary: g)
  case Nil
  then show ?case by simp
next
  case (Cons a os)
  from Cons.prems(1) obtain g1 where
    g1: "relax_edge es s a g = Some g1" "relax_out es s os g1 = Some g'"
    by (rule relax_out_Cons)
  note fr = relax_edge_frame [OF g1(1)]
  show ?case
  proof (cases "st \<in> set os")
    case True
    from Cons.IH [OF g1(2) True] Cons.prems(3) show ?thesis by (simp add: fr)
  next
    case False
    with Cons.prems(2) have "st = a" by simp
    with relax_edge_relaxed [OF g1(1)] Cons.prems(3)
      relax_out_mono [OF g1(2), of "to_node (es ! st)"]
    show ?thesis by fastforce
  qed
qed

lemma relax_out_new:
  "relax_out es s os g = Some g' \<Longrightarrow> x \<in> set (gamma_q g')
   \<Longrightarrow> x \<in> set (gamma_q g) \<or>
       (node_idx x < length (nodes g) \<and> \<not> changed (nodes g ! node_idx x) \<and>
        (\<exists>st \<in> set os. st < length es \<and> node_idx x = to_node (es ! st) \<and>
           upd_gamma x = diff32 (potential (nodes g ! s)) (weight (es ! st)) (potential (nodes g ! node_idx x))) \<and>
        upd_gamma x < gamma (nodes g ! node_idx x) \<and>
        gamma (nodes g' ! node_idx x) \<le> upd_gamma x)"
proof (induction os arbitrary: g)
  case Nil
  then show ?case by simp
next
  case (Cons a os)
  from Cons.prems(1) obtain g1 where
    g1: "relax_edge es s a g = Some g1" "relax_out es s os g1 = Some g'"
    by (rule relax_out_Cons)
  note fr = relax_edge_frame [OF g1(1)]
  from Cons.IH [OF g1(2) Cons.prems(2)]
  consider "x \<in> set (gamma_q g1)"
    | "node_idx x < length (nodes g1)" "\<not> changed (nodes g1 ! node_idx x)"
      "\<exists>st \<in> set os. st < length es \<and> node_idx x = to_node (es ! st) \<and>
           upd_gamma x = diff32 (potential (nodes g1 ! s)) (weight (es ! st)) (potential (nodes g1 ! node_idx x))"
      "upd_gamma x < gamma (nodes g1 ! node_idx x)"
      "gamma (nodes g' ! node_idx x) \<le> upd_gamma x"
    by blast
  then show ?case
  proof cases
    case 1
    from relax_edge_new [OF g1(1) 1] relax_out_mono [OF g1(2), of "node_idx x"]
    show ?thesis by auto
  next
    case 2
    with relax_edge_mono [OF g1(1), of "node_idx x"] show ?thesis
      by (auto simp: fr)
  qed
qed

lemma relax_out_hd:
  "relax_out es s os g = Some g' \<Longrightarrow> gamma_q g \<noteq> [] \<Longrightarrow>
   \<forall>st \<in> set os. upd_gamma (hd (gamma_q g))
      \<le> diff32 (potential (nodes g ! s)) (weight (es ! st)) (potential (nodes g ! to_node (es ! st)))
   \<Longrightarrow> gamma_q g' \<noteq> [] \<and> hd (gamma_q g') = hd (gamma_q g)"
proof (induction os arbitrary: g)
  case Nil
  then show ?case by simp
next
  case (Cons a os)
  from Cons.prems(1) obtain g1 where
    g1: "relax_edge es s a g = Some g1" "relax_out es s os g1 = Some g'"
    by (rule relax_out_Cons)
  note fr = relax_edge_frame [OF g1(1)]
  from relax_edge_hd [OF g1(1) Cons.prems(2)] Cons.prems(3)
  have hd1: "gamma_q g1 \<noteq> []" "hd (gamma_q g1) = hd (gamma_q g)" by simp_all
  from Cons.prems(3) have "\<forall>st \<in> set os. upd_gamma (hd (gamma_q g1))
      \<le> diff32 (potential (nodes g1 ! s)) (weight (es ! st)) (potential (nodes g1 ! to_node (es ! st)))"
    by (simp add: hd1 fr)
  from Cons.IH [OF g1(2) hd1(1) this] hd1(2) show ?case by simp
qed

lemma relax_out_head_least:
  "relax_out es s os g = Some g' \<Longrightarrow>
   \<forall>y \<in> set (gamma_q g). upd_gamma (hd (gamma_q g)) \<le> upd_gamma y
   \<Longrightarrow> \<forall>y \<in> set (gamma_q g'). upd_gamma (hd (gamma_q g')) \<le> upd_gamma y"
proof (induction os arbitrary: g)
  case Nil
  then show ?case by simp
next
  case (Cons a os)
  from Cons.prems(1) obtain g1 where
    g1: "relax_edge es s a g = Some g1" "relax_out es s os g1 = Some g'"
    by (rule relax_out_Cons)
  from Cons.IH [OF g1(2) relax_edge_head_least [OF g1(1) Cons.prems(2)]] show ?case .
qed

lemma relax_out_total:
  "\<forall>st \<in> set os. st < length es \<and> to_node (es ! st) < length (nodes g)
   \<Longrightarrow> \<exists>g'. relax_out es s os g = Some g'"
proof (induction os arbitrary: g)
  case Nil
  then show ?case by simp
next
  case (Cons a os)
  from Cons.prems relax_edge_total [of a es g s] obtain g1 where
    g1: "relax_edge es s a g = Some g1" by auto
  from Cons.prems relax_edge_frame(1) [OF g1]
  have "\<forall>st \<in> set os. st < length es \<and> to_node (es ! st) < length (nodes g1)" by simp
  from Cons.IH [OF this] g1 show ?case by simp
qed

subsection \<open>Marking a node\<close>

lemma mark_changed_frame [simp]:
  "length (nodes (mark_changed s g)) = length (nodes g)"
  "changed_l (mark_changed s g) = changed_l g @ [s]"
  "gamma_q (mark_changed s g) = gamma_q g"
  by (simp_all add: mark_changed_def Let_def)

lemma mark_changed_nth:
  assumes "s < length (nodes g)"
  shows "potential (nodes (mark_changed s g) ! n)
           = (if n = s then wrap32 (potential (nodes g ! s) + gamma (nodes g ! s))
              else potential (nodes g ! n))"
    and "gamma (nodes (mark_changed s g) ! n) = (if n = s then 0 else gamma (nodes g ! n))"
    and "changed (nodes (mark_changed s g) ! n) \<longleftrightarrow> n = s \<or> changed (nodes g ! n)"
    and "outgoing (nodes (mark_changed s g) ! n) = outgoing (nodes g ! n)"
    and "last_edge (nodes (mark_changed s g) ! n) = last_edge (nodes g ! n)"
  using assms by (auto simp: mark_changed_def Let_def nth_list_update)

lemma visit_relax_out:
  "visit ndebug es s g = Some g' \<Longrightarrow>
   relax_out es s (outgoing (nodes g ! s)) (mark_changed s g) = Some g'"
  by (simp add: visit_def split: if_splits)

subsection \<open>The scratch invariant\<close>

lemma scratch_inv_mark:
  assumes "scratch_inv es g" and "s < length (nodes g)" and "\<not> changed (nodes g ! s)"
  shows "scratch_inv es (mark_changed s g)"
  using assms
  unfolding scratch_inv_def wf_graph_def
  by (auto simp: mark_changed_nth)

lemma relax_out_changed_gamma:
  assumes "relax_out es s os g = Some g'" and "changed (nodes g ! n)"
  shows "gamma (nodes g' ! n) = gamma (nodes g ! n)"
    and "last_edge (nodes g' ! n) = last_edge (nodes g ! n)"
proof -
  from relax_out_lowered [OF assms(1), of n] assms(2) relax_out_mono [OF assms(1), of n]
  show "gamma (nodes g' ! n) = gamma (nodes g ! n)" by fastforce
  from relax_out_same [OF assms(1) this]
  show "last_edge (nodes g' ! n) = last_edge (nodes g ! n)" .
qed

lemma scratch_inv_relax_out:
  assumes inv: "scratch_inv es g" and ro: "relax_out es s os g = Some g'"
  shows "scratch_inv es g'"
proof -
  note fr = relax_out_frame [OF ro]
  from inv have wf: "wf_graph es g"
    and cl: "distinct (changed_l g)" "\<forall>x \<in> set (changed_l g). x < length (nodes g)"
      "\<forall>n < length (nodes g). changed (nodes g ! n) \<longleftrightarrow> n \<in> set (changed_l g)"
    and gm: "\<forall>n < length (nodes g). gamma (nodes g ! n) \<le> 0"
      "\<forall>n < length (nodes g). changed (nodes g ! n) \<longrightarrow> gamma (nodes g ! n) = 0"
    and qu: "\<forall>x \<in> set (gamma_q g). node_idx x < length (nodes g)"
      "\<forall>x \<in> set (gamma_q g). \<not> changed (nodes g ! node_idx x) \<longrightarrow> gamma (nodes g ! node_idx x) < 0"
    by (simp_all add: scratch_inv_def)
  have "wf_graph es g'"
    using wf by (simp add: wf_graph_def fr)
  moreover have "\<forall>n < length (nodes g'). gamma (nodes g' ! n) \<le> 0"
  proof (intro allI impI)
    fix n assume "n < length (nodes g')"
    with gm(1) relax_out_mono [OF ro, of n] show "gamma (nodes g' ! n) \<le> 0"
      by (simp add: fr) (meson order_trans)
  qed
  moreover have "\<forall>n < length (nodes g'). changed (nodes g' ! n) \<longrightarrow> gamma (nodes g' ! n) = 0"
    using gm(2) relax_out_changed_gamma(1) [OF ro] by (simp add: fr)
  moreover have "\<forall>x \<in> set (gamma_q g'). node_idx x < length (nodes g') \<and>
      (\<not> changed (nodes g' ! node_idx x) \<longrightarrow> gamma (nodes g' ! node_idx x) < 0)"
  proof
    fix x assume x: "x \<in> set (gamma_q g')"
    from relax_out_new [OF ro x]
    show "node_idx x < length (nodes g') \<and>
      (\<not> changed (nodes g' ! node_idx x) \<longrightarrow> gamma (nodes g' ! node_idx x) < 0)"
    proof (elim disjE conjE)
      assume old: "x \<in> set (gamma_q g)"
      with qu relax_out_mono [OF ro, of "node_idx x"] show ?thesis
        by (auto simp: fr)
    next
      assume n: "node_idx x < length (nodes g)"
        and lt: "upd_gamma x < gamma (nodes g ! node_idx x)"
        and le: "gamma (nodes g' ! node_idx x) \<le> upd_gamma x"
      from gm(1) n have "gamma (nodes g ! node_idx x) \<le> 0" by simp
      with lt le n show ?thesis by (simp add: fr)
    qed
  qed
  ultimately show ?thesis
    using cl by (simp add: scratch_inv_def fr)
qed

lemma scratch_inv_pop:
  assumes "scratch_inv es g"
  shows "scratch_inv es (g\<lparr>gamma_q := pq_pop tie (gamma_q g)\<rparr>)"
proof -
  have "set (pq_pop tie (gamma_q g)) \<subseteq> set (gamma_q g)"
    by (cases "gamma_q g") (auto simp: set_pq_pop)
  with assms show ?thesis
    unfolding scratch_inv_def wf_graph_def by auto
qed

lemma scratch_inv_visit:
  assumes "scratch_inv es g" and "s < length (nodes g)" and "\<not> changed (nodes g ! s)"
    and "visit ndebug es s g = Some g'"
  shows "scratch_inv es g'"
  using scratch_inv_relax_out [OF scratch_inv_mark [OF assms(1-3)] visit_relax_out [OF assms(4)]] .

subsection \<open>The chain of last edges\<close>

lemma chain_node_queue [simp]: "chain_node es e (g\<lparr>gamma_q := q\<rparr>) i = chain_node es e g i"
  by (simp add: chain_node_def)

lemma chain_front_queue [simp]: "chain_front es e (g\<lparr>gamma_q := q\<rparr>) t = chain_front es e g t"
  by (simp add: chain_front_def)

lemma chain_node_eq:
  assumes "chain_node es e g i"
    and "\<forall>j \<le> i. changed_l g' ! j = changed_l g ! j"
    and "last_edge (nodes g' ! (changed_l g ! i)) = last_edge (nodes g ! (changed_l g ! i))"
    and "potential (nodes g' ! (changed_l g ! i)) = potential (nodes g ! (changed_l g ! i))"
    and "potential (nodes g' ! from_node (es ! last_edge (nodes g ! (changed_l g ! i))))
         = potential (nodes g ! from_node (es ! last_edge (nodes g ! (changed_l g ! i))))"
  shows "chain_node es e g' i"
proof -
  from assms(2) have i: "changed_l g' ! i = changed_l g ! i" by simp
  from assms(1) have cn: "last_edge (nodes g ! (changed_l g ! i)) < length es"
    "to_node (es ! last_edge (nodes g ! (changed_l g ! i))) = changed_l g ! i"
    "potential (nodes g ! (changed_l g ! i))
     = wrap32 (potential (nodes g ! from_node (es ! last_edge (nodes g ! (changed_l g ! i))))
       + weight (es ! last_edge (nodes g ! (changed_l g ! i))))"
    "if i = 0 then changed_l g ! i = to_node (es ! e)
     else \<exists>j < i. from_node (es ! last_edge (nodes g ! (changed_l g ! i))) = changed_l g ! j"
    by (auto simp: chain_node_def Let_def)
  have "if i = 0 then changed_l g ! i = to_node (es ! e)
     else \<exists>j < i. from_node (es ! last_edge (nodes g ! (changed_l g ! i))) = changed_l g' ! j"
  proof (cases "i = 0")
    case True
    with cn(4) show ?thesis by simp
  next
    case False
    with cn(4) obtain j where "j < i"
      "from_node (es ! last_edge (nodes g ! (changed_l g ! i))) = changed_l g ! j" by auto
    with assms(2) False show ?thesis by auto
  qed
  with cn(1-3) assms(3-5) show ?thesis
    by (auto simp: chain_node_def Let_def i split: if_splits)
qed

lemma chain_front_grow:
  assumes "chain_front es e g t" and "changed_l g \<noteq> []"
    and "set (changed_l g) \<subseteq> set (changed_l g')"
    and "last_edge (nodes g' ! t) = last_edge (nodes g ! t)"
    and "gamma (nodes g' ! t) = gamma (nodes g ! t)"
    and "potential (nodes g' ! t) = potential (nodes g ! t)"
    and "potential (nodes g' ! from_node (es ! last_edge (nodes g ! t)))
         = potential (nodes g ! from_node (es ! last_edge (nodes g ! t)))"
  shows "chain_front es e g' t"
proof -
  from assms(2,3) have "changed_l g' \<noteq> []" by auto
  with assms show ?thesis
    by (auto simp: chain_front_def Let_def)
qed

lemma chain_inv_pop:
  assumes "chain_inv es e g"
  shows "chain_inv es e (g\<lparr>gamma_q := pq_pop tie (gamma_q g)\<rparr>)"
proof -
  have "set (pq_pop tie (gamma_q g)) \<subseteq> set (gamma_q g)"
    by (cases "gamma_q g") (auto simp: set_pq_pop)
  with assms show ?thesis
    unfolding chain_inv_def by auto
qed

lemma chain_inv_mark:
  assumes sc: "scratch_inv es g" and ch: "chain_inv es e g"
    and s: "s < length (nodes g)" "\<not> changed (nodes g ! s)" "gamma (nodes g ! s) < 0"
    and u0: "gamma (nodes g ! from_node (es ! e)) = 0"
    and first: "changed_l g = [] \<longrightarrow> s = to_node (es ! e)"
  shows "chain_inv es e (mark_changed s g)"
proof -
  let ?u = "from_node (es ! e)" and ?v = "to_node (es ! e)" and ?cl = "changed_l g"
  let ?les = "last_edge (nodes g ! s)" and ?g = "mark_changed s g"
  note mk = mark_changed_nth [OF s(1)]
  from ch have base: "e < length es" "?u < length (nodes g)" "?v < length (nodes g)" "?u \<noteq> ?v"
    "?u \<notin> set ?cl" "last_edge (nodes g ! ?v) = e"
    and nodes: "\<forall>i < length ?cl. chain_node es e g i"
    and front: "\<forall>t < length (nodes g). \<not> changed (nodes g ! t) \<and> gamma (nodes g ! t) < 0
        \<longrightarrow> chain_front es e g t"
    by (simp_all add: chain_inv_def)
  from sc s(1,2) have s_cl: "s \<notin> set ?cl"
    by (simp add: scratch_inv_def)
  from u0 s(3) have su: "s \<noteq> ?u" by auto
  have pot_same: "potential (nodes ?g ! n) = potential (nodes g ! n)" if "n \<noteq> s" for n
    using that by (simp add: mk)
  from front s have "chain_front es e g s" by simp
  then have fs: "?les < length es" "to_node (es ! ?les) = s"
    "gamma (nodes g ! s)
       = diff32 (potential (nodes g ! from_node (es ! ?les))) (weight (es ! ?les)) (potential (nodes g ! s))"
    "if ?cl = [] then s = ?v else from_node (es ! ?les) \<in> set ?cl"
    by (simp_all add: chain_front_def Let_def)
  have from_ne: "from_node (es ! ?les) \<noteq> s"
  proof (cases "?cl = []")
    case True
    with fs(4) have "s = ?v" by simp
    with base(6) have "?les = e" by simp
    with base(4) \<open>s = ?v\<close> show ?thesis by simp
  next
    case False
    with fs(4) s_cl show ?thesis by auto
  qed
  have old: "chain_node es e ?g i" if i: "i < length ?cl" for i
  proof -
    from nodes i have cn: "chain_node es e g i" by simp
    from i have si: "?cl ! i \<in> set ?cl" by simp
    with s_cl have ne: "?cl ! i \<noteq> s" by auto
    have fne: "from_node (es ! last_edge (nodes g ! (?cl ! i))) \<noteq> s"
    proof (cases "i = 0")
      case True
      with cn have "?cl ! i = ?v" by (simp add: chain_node_def Let_def)
      with base(6) su show ?thesis by simp
    next
      case False
      with cn obtain j where j: "j < i" "from_node (es ! last_edge (nodes g ! (?cl ! i))) = ?cl ! j"
        by (auto simp: chain_node_def Let_def)
      from j(1) i have "?cl ! j \<in> set ?cl" by simp
      with s_cl j(2) show ?thesis by auto
    qed
    have a: "\<forall>j \<le> i. changed_l ?g ! j = ?cl ! j"
      using i by (simp add: nth_append)
    have b: "last_edge (nodes ?g ! (?cl ! i)) = last_edge (nodes g ! (?cl ! i))"
      by (simp add: mk)
    show ?thesis
      by (rule chain_node_eq [OF cn a b pot_same [OF ne] pot_same [OF fne]])
  qed
  have new: "chain_node es e ?g (length ?cl)"
  proof -
    have 1: "changed_l ?g ! length ?cl = s" by simp
    have 2: "last_edge (nodes ?g ! s) = ?les" by (simp add: mk)
    have 3: "potential (nodes ?g ! s)
        = wrap32 (potential (nodes ?g ! from_node (es ! ?les)) + weight (es ! ?les))"
      using fs(3) pot_same [OF from_ne] by (simp add: mk wrap32_add_diff32)
    have 4: "if length ?cl = 0 then s = ?v
             else \<exists>j < length ?cl. from_node (es ! ?les) = changed_l ?g ! j"
    proof (cases "?cl = []")
      case True
      with fs(4) show ?thesis by simp
    next
      case False
      with fs(4) obtain j where j: "j < length ?cl" "?cl ! j = from_node (es ! ?les)"
        by (auto simp: in_set_conv_nth)
      then have "from_node (es ! ?les) = changed_l ?g ! j" by (simp add: nth_append)
      with j(1) False show ?thesis by auto
    qed
    show ?thesis
      unfolding chain_node_def Let_def 1 2 using fs(1,2) 3 4 by simp
  qed
  have all: "\<forall>i < length (changed_l ?g). chain_node es e ?g i"
  proof (intro allI impI)
    fix i assume "i < length (changed_l ?g)"
    then have "i < length ?cl \<or> i = length ?cl" by auto
    with old new show "chain_node es e ?g i" by auto
  qed
  have fr: "\<forall>t < length (nodes ?g). \<not> changed (nodes ?g ! t) \<and> gamma (nodes ?g ! t) < 0
        \<longrightarrow> chain_front es e ?g t"
  proof (intro allI impI)
    fix t assume "t < length (nodes ?g)"
      and "\<not> changed (nodes ?g ! t) \<and> gamma (nodes ?g ! t) < 0"
    then have t: "t < length (nodes g)" and ts: "t \<noteq> s" and tc: "\<not> changed (nodes g ! t)"
      and tg: "gamma (nodes g ! t) < 0"
      by (auto simp: mk split: if_splits)
    with front have cf: "chain_front es e g t" by simp
    have ne: "?cl \<noteq> []"
    proof
      assume "?cl = []"
      with cf first have "t = s" by (simp add: chain_front_def Let_def)
      with ts show False by simp
    qed
    with cf have "from_node (es ! last_edge (nodes g ! t)) \<in> set ?cl"
      by (simp add: chain_front_def Let_def)
    with s_cl have fne: "from_node (es ! last_edge (nodes g ! t)) \<noteq> s" by auto
    have a: "set ?cl \<subseteq> set (changed_l ?g)" by auto
    have b: "last_edge (nodes ?g ! t) = last_edge (nodes g ! t)" by (simp add: mk)
    have c: "gamma (nodes ?g ! t) = gamma (nodes g ! t)" using ts by (simp add: mk)
    show "chain_front es e ?g t"
      by (rule chain_front_grow [OF cf ne a b c pot_same [OF ts] pot_same [OF fne]])
  qed
  have "?u \<notin> set (changed_l ?g)" using base(5) su by auto
  moreover have "last_edge (nodes ?g ! ?v) = e" using base(6) by (simp add: mk)
  moreover have "changed_l ?g \<noteq> []" by simp
  ultimately show ?thesis
    unfolding chain_inv_def using base(1-4) all fr by simp
qed

lemma chain_inv_relax_out:
  assumes sc: "scratch_inv es g" and ch: "chain_inv es e g"
    and s: "s \<in> set (changed_l g)" and os: "set os \<subseteq> set (outgoing (nodes g ! s))"
    and ro: "relax_out es s os g = Some g'"
  shows "chain_inv es e g'"
proof -
  define v where "v = to_node (es ! e)"
  define cl where "cl = changed_l g"
  note fr = relax_out_frame [OF ro]
  from sc s have s_len: "s < length (nodes g)" by (auto simp: scratch_inv_def)
  from sc have chg: "\<And>n. n < length (nodes g) \<Longrightarrow> changed (nodes g ! n) \<longleftrightarrow> n \<in> set cl"
    by (auto simp: scratch_inv_def cl_def)
  from sc have in_cl: "\<And>x. x \<in> set cl \<Longrightarrow> x < length (nodes g)"
    by (auto simp: scratch_inv_def cl_def)
  from sc s_len os have from_s: "\<And>st. st \<in> set os \<Longrightarrow> from_node (es ! st) = s"
    by (auto simp: scratch_inv_def wf_graph_def)
  from s have ne: "cl \<noteq> []" by (auto simp: cl_def)
  from ch have base: "v < length (nodes g)" "last_edge (nodes g ! v) = e"
    and nodes: "\<forall>i < length cl. chain_node es e g i"
    and front: "\<forall>t < length (nodes g). \<not> changed (nodes g ! t) \<and> gamma (nodes g ! t) < 0
        \<longrightarrow> chain_front es e g t"
    by (simp_all add: chain_inv_def v_def cl_def)
  from nodes ne have "cl ! 0 = v"
    by (auto simp: chain_node_def Let_def cl_def v_def)
  with ne have "v \<in> set cl" by (metis length_greater_0_conv nth_mem)
  with chg base(1) have cv: "changed (nodes g ! v)" by simp
  have le_same: "last_edge (nodes g' ! x) = last_edge (nodes g ! x)" if "x \<in> set cl" for x
    using relax_out_changed_gamma(2) [OF ro] chg [of x] in_cl [OF that] that by simp
  have n': "chain_node es e g' i" if i: "i < length cl" for i
  proof -
    from i have "cl ! i \<in> set cl" by simp
    from nodes i have "chain_node es e g i" by simp
    with le_same [OF \<open>cl ! i \<in> set cl\<close>] show ?thesis
      by (auto simp: chain_node_def Let_def fr cl_def)
  qed
  have f': "chain_front es e g' t"
    if t: "t < length (nodes g)" "\<not> changed (nodes g ! t)" "gamma (nodes g' ! t) < 0" for t
  proof (cases "gamma (nodes g' ! t) < gamma (nodes g ! t)")
    case True
    from relax_out_lowered [OF ro True] obtain st where
      st: "st \<in> set os" "st < length es" "to_node (es ! st) = t" "last_edge (nodes g' ! t) = st"
        "gamma (nodes g' ! t) = diff32 (potential (nodes g ! s)) (weight (es ! st)) (potential (nodes g ! t))"
      by blast
    with from_s [OF st(1)] s ne show ?thesis
      by (simp add: chain_front_def Let_def fr flip: cl_def)
  next
    case False
    with relax_out_mono [OF ro, of t]
    have eq: "gamma (nodes g' ! t) = gamma (nodes g ! t)" by simp
    from relax_out_same [OF ro eq] front t eq show ?thesis
      by (simp add: chain_front_def Let_def fr)
  qed
  from ch n' f' relax_out_changed_gamma(2) [OF ro cv] show ?thesis
    by (simp add: chain_inv_def fr ne flip: v_def cl_def)
qed

lemma chain_inv_visit:
  assumes sc: "scratch_inv es g" and ch: "chain_inv es e g"
    and s: "s < length (nodes g)" "\<not> changed (nodes g ! s)" "gamma (nodes g ! s) < 0"
    and u0: "gamma (nodes g ! from_node (es ! e)) = 0"
    and first: "changed_l g = [] \<longrightarrow> s = to_node (es ! e)"
    and vis: "visit ndebug es s g = Some g'"
  shows "chain_inv es e g'"
proof -
  have "scratch_inv es (mark_changed s g)"
    using sc s(1,2) by (rule scratch_inv_mark)
  moreover have "chain_inv es e (mark_changed s g)"
    using sc ch s u0 first by (rule chain_inv_mark)
  moreover have "s \<in> set (changed_l (mark_changed s g))" by simp
  moreover have "set (outgoing (nodes g ! s)) \<subseteq> set (outgoing (nodes (mark_changed s g) ! s))"
    by (simp add: mark_changed_nth [OF s(1)])
  ultimately show ?thesis
    using visit_relax_out [OF vis] by (rule chain_inv_relax_out)
qed

subsection \<open>The relaxation loop keeps the basic invariants\<close>

lemma relax_basic:
  "relax ndebug tie es u g = Some g' \<Longrightarrow> u = from_node (es ! e) \<Longrightarrow>
   scratch_inv es g \<Longrightarrow> chain_inv es e g \<Longrightarrow> scratch_inv es g' \<and> chain_inv es e g'"
proof (induction ndebug tie es u g rule: relax.induct)
  case (1 ndebug tie es u g)
  note sc = "1.prems"(3) and ch = "1.prems"(4)
  show ?case
  proof (cases "gamma_q g \<noteq> [] \<and> gamma (nodes g ! u) = 0")
    case False
    with "1.prems"(1) have "g' = g" by (subst (asm) relax.simps) auto
    with sc ch show ?thesis by simp
  next
    case True
    define s where "s = node_idx (pq_top (gamma_q g))"
    from True have top: "pq_top (gamma_q g) \<in> set (gamma_q g)" by (simp add: pq_top_def)
    with sc have s_len: "s < length (nodes g)" by (simp add: scratch_inv_def s_def)
    show ?thesis
    proof (cases "changed (nodes g ! s)")
      case chg: True
      from "1.prems"(1) True s_len chg
      have r: "relax ndebug tie es u (g\<lparr>gamma_q := pq_pop tie (gamma_q g)\<rparr>) = Some g'"
        by (subst (asm) relax.simps) (simp add: s_def)
      from s_len chg have a: "\<not> length (nodes g) \<le> s" "\<not> \<not> changed (nodes g ! s)" by simp_all
      from "1.IH"(2) [OF True s_def a r "1.prems"(2) scratch_inv_pop [OF sc] chain_inv_pop [OF ch]]
      show ?thesis .
    next
      case unch: False
      from "1.prems"(1) True s_len unch obtain g1 where
        vis: "visit ndebug es s g = Some g1"
        and r: "relax ndebug tie es u (g1\<lparr>gamma_q := pq_pop tie (gamma_q g1)\<rparr>) = Some g'"
        by (subst (asm) relax.simps) (auto simp: s_def split: option.splits)
      from sc top unch have neg: "gamma (nodes g ! s) < 0"
        by (simp add: scratch_inv_def s_def)
      from ch top have first: "changed_l g = [] \<longrightarrow> s = to_node (es ! e)"
        by (simp add: chain_inv_def s_def)
      from True "1.prems"(2) have u0: "gamma (nodes g ! from_node (es ! e)) = 0" by simp
      have sc1: "scratch_inv es g1"
        using sc s_len unch vis by (rule scratch_inv_visit)
      have ch1: "chain_inv es e g1"
        using sc ch s_len unch neg u0 first vis by (rule chain_inv_visit)
      from s_len have a: "\<not> length (nodes g) \<le> s" by simp
      from "1.IH"(1) [OF True s_def a unch vis r "1.prems"(2)
          scratch_inv_pop [OF sc1] chain_inv_pop [OF ch1]]
      show ?thesis .
    qed
  qed
qed

lemma visit_frame:
  assumes "visit ndebug es s g = Some g'" and "s < length (nodes g)"
  shows "length (nodes g') = length (nodes g)"
    and "outgoing (nodes g' ! n) = outgoing (nodes g ! n)"
  using relax_out_frame(1,5) [OF visit_relax_out [OF assms(1)]] assms(2)
  by (simp_all add: mark_changed_nth)

lemma relax_frame:
  "relax ndebug tie es u g = Some g' \<Longrightarrow>
   length (nodes g') = length (nodes g) \<and>
   (\<forall>n. outgoing (nodes g' ! n) = outgoing (nodes g ! n))"
proof (induction ndebug tie es u g rule: relax.induct)
  case (1 ndebug tie es u g)
  show ?case
  proof (cases "gamma_q g \<noteq> [] \<and> gamma (nodes g ! u) = 0")
    case False
    with "1.prems" have "g' = g" by (subst (asm) relax.simps) auto
    then show ?thesis by simp
  next
    case True
    define s where "s = node_idx (pq_top (gamma_q g))"
    from "1.prems" True have s_len: "\<not> length (nodes g) \<le> s"
      by (subst (asm) relax.simps) (auto simp: s_def split: if_splits)
    show ?thesis
    proof (cases "changed (nodes g ! s)")
      case chg: True
      from "1.prems" True s_len chg
      have r: "relax ndebug tie es u (g\<lparr>gamma_q := pq_pop tie (gamma_q g)\<rparr>) = Some g'"
        by (subst (asm) relax.simps) (simp add: s_def)
      from chg have a: "\<not> \<not> changed (nodes g ! s)" by simp
      from "1.IH"(2) [OF True s_def s_len a r] show ?thesis by simp
    next
      case unch: False
      from "1.prems" True s_len unch obtain g1 where
        vis: "visit ndebug es s g = Some g1"
        and r: "relax ndebug tie es u (g1\<lparr>gamma_q := pq_pop tie (gamma_q g1)\<rparr>) = Some g'"
        by (subst (asm) relax.simps) (auto simp: s_def split: option.splits)
      from s_len have "s < length (nodes g)" by simp
      from "1.IH"(1) [OF True s_def s_len unch vis r] visit_frame [OF vis this]
      show ?thesis by simp
    qed
  qed
qed

lemma relax_stops:
  "relax ndebug tie es u g = Some g' \<Longrightarrow> gamma_q g' = [] \<or> gamma (nodes g' ! u) \<noteq> 0"
proof (induction ndebug tie es u g rule: relax.induct)
  case (1 ndebug tie es u g)
  show ?case
  proof (cases "gamma_q g \<noteq> [] \<and> gamma (nodes g ! u) = 0")
    case False
    with "1.prems" have "g' = g" by (subst (asm) relax.simps) auto
    with False show ?thesis by auto
  next
    case True
    define s where "s = node_idx (pq_top (gamma_q g))"
    from "1.prems" True have s_len: "\<not> length (nodes g) \<le> s"
      by (subst (asm) relax.simps) (auto simp: s_def split: if_splits)
    show ?thesis
    proof (cases "changed (nodes g ! s)")
      case chg: True
      from "1.prems" True s_len chg
      have r: "relax ndebug tie es u (g\<lparr>gamma_q := pq_pop tie (gamma_q g)\<rparr>) = Some g'"
        by (subst (asm) relax.simps) (simp add: s_def)
      from chg have a: "\<not> \<not> changed (nodes g ! s)" by simp
      from "1.IH"(2) [OF True s_def s_len a r] show ?thesis .
    next
      case unch: False
      from "1.prems" True s_len unch obtain g1 where
        vis: "visit ndebug es s g = Some g1"
        and r: "relax ndebug tie es u (g1\<lparr>gamma_q := pq_pop tie (gamma_q g1)\<rparr>) = Some g'"
        by (subst (asm) relax.simps) (auto simp: s_def split: option.splits)
      from "1.IH"(1) [OF True s_def s_len unch vis r] show ?thesis .
    qed
  qed
qed

subsection \<open>Gathering the cycle\<close>

lemma weight_sum_simps [simp]:
  "weight_sum es [] = 0"
  "weight_sum es (x # xs) = weight (es ! x) + weight_sum es xs"
  by (simp_all add: weight_sum_def)

lemma back_walk_steps:
  "back_walk es a xs b \<Longrightarrow> xs \<noteq> [] \<Longrightarrow>
   to_node (es ! hd xs) = a \<and> from_node (es ! last xs) = b \<and>
   (\<forall>x \<in> set xs. x < length es) \<and>
   (\<forall>i. Suc i < length xs \<longrightarrow> from_node (es ! (xs ! i)) = to_node (es ! (xs ! Suc i)))"
proof (induction xs arbitrary: a)
  case Nil
  then show ?case by simp
next
  case (Cons x xs)
  show ?case
  proof (cases "xs = []")
    case True
    with Cons.prems show ?thesis by simp
  next
    case False
    from Cons.prems have bw: "back_walk es (from_node (es ! x)) xs b" by simp
    from Cons.IH [OF bw False] Cons.prems(1) False show ?thesis
      by (auto simp: nth_Cons hd_conv_nth split: nat.splits)
  qed
qed

lemma gather_chain:
  assumes sc: "scratch_inv es g" and ch: "chain_inv es e g"
  shows "i < length (changed_l g) \<Longrightarrow>
         \<exists>xs. gather_cycle es (nodes g) (to_node (es ! e)) (changed_l g ! i) acc = Some (acc @ xs) \<and>
              back_walk es (changed_l g ! i) xs (to_node (es ! e)) \<and>
              wrap32 (weight_sum es xs)
                = wrap32 (potential (nodes g ! (changed_l g ! i))
                          - potential (nodes g ! to_node (es ! e)))"
proof (induction i arbitrary: acc rule: less_induct)
  case (less i)
  let ?v = "to_node (es ! e)" and ?cl = "changed_l g"
  from ch less.prems have cn: "chain_node es e g i" by (simp add: chain_inv_def)
  show ?case
  proof (cases "i = 0")
    case True
    with cn have "?cl ! i = ?v" by (simp add: chain_node_def Let_def)
    then show ?thesis by (simp add: gather_cycle.simps)
  next
    case False
    from less.prems have "0 < length ?cl" by (cases ?cl) simp_all
    with ch have "chain_node es e g 0" by (simp add: chain_inv_def)
    then have v0: "?cl ! 0 = ?v" by (simp add: chain_node_def Let_def)
    from sc have "distinct ?cl" by (simp add: scratch_inv_def)
    with less.prems False v0 have ne: "?v \<noteq> ?cl ! i"
      by (metis distinct_conv_nth gr0I less_trans)
    from sc less.prems have len: "?cl ! i < length (nodes g)"
      by (simp add: scratch_inv_def)
    let ?le = "last_edge (nodes g ! (?cl ! i))"
    from cn False obtain j where le: "?le < length es" "to_node (es ! ?le) = ?cl ! i"
      and pot: "potential (nodes g ! (?cl ! i))
                = wrap32 (potential (nodes g ! from_node (es ! ?le)) + weight (es ! ?le))"
      and j: "j < i" "from_node (es ! ?le) = ?cl ! j"
      by (auto simp: chain_node_def Let_def)
    from j(1) less.prems have jl: "j < length ?cl" by simp
    from less.IH [OF j(1) jl, of "acc @ [?le]"] obtain xs where
      xs: "gather_cycle es (nodes g) ?v (?cl ! j) (acc @ [?le]) = Some ((acc @ [?le]) @ xs)"
        "back_walk es (?cl ! j) xs ?v"
        "wrap32 (weight_sum es xs)
           = wrap32 (potential (nodes g ! (?cl ! j)) - potential (nodes g ! ?v))"
      by blast
    have "gather_cycle es (nodes g) ?v (?cl ! i) acc = Some (acc @ ?le # xs)"
      using ne len le(1) xs(1) j(2) by (subst gather_cycle.simps) (simp add: Let_def)
    moreover have "back_walk es (?cl ! i) (?le # xs) ?v"
      using le xs(2) j(2) by simp
    moreover have "wrap32 (weight_sum es (?le # xs))
        = wrap32 (potential (nodes g ! (?cl ! i)) - potential (nodes g ! ?v))"
    proof -
      let ?pj = "potential (nodes g ! (?cl ! j))" and ?pv = "potential (nodes g ! ?v)"
      have "wrap32 (weight_sum es (?le # xs))
          = wrap32 (weight (es ! ?le) + wrap32 (weight_sum es xs))"
        by (simp add: wrap32_add_right)
      also have "\<dots> = wrap32 (weight (es ! ?le) + (?pj - ?pv))"
        by (simp only: xs(3) wrap32_add_right)
      also have "weight (es ! ?le) + (?pj - ?pv) = (?pj + weight (es ! ?le)) - ?pv"
        by simp
      also have "wrap32 ((?pj + weight (es ! ?le)) - ?pv)
          = wrap32 (wrap32 (?pj + weight (es ! ?le)) - ?pv)"
        by (simp only: wrap32_diff_left)
      also have "wrap32 (?pj + weight (es ! ?le)) = potential (nodes g ! (?cl ! i))"
        using pot j(2) by simp
      finally show ?thesis .
    qed
    ultimately show ?thesis by blast
  qed
qed

lemma neg_cycle_of_chain:
  assumes sc: "scratch_inv es g" and ch: "chain_inv es e g"
    and neg: "gamma (nodes g ! from_node (es ! e)) < 0"
  shows "\<exists>xs. neg_cycle_of es g (to_node (es ! e)) = Some (e # xs) \<and>
              back_walk es (to_node (es ! e)) (e # xs) (to_node (es ! e)) \<and>
              wrap32 (weight_sum es (e # xs)) = gamma (nodes g ! from_node (es ! e))"
proof -
  let ?u = "from_node (es ! e)" and ?v = "to_node (es ! e)" and ?cl = "changed_l g"
  from ch have base: "e < length es" "?u < length (nodes g)" "?u \<noteq> ?v" "?u \<notin> set ?cl"
    "last_edge (nodes g ! ?v) = e"
    by (simp_all add: chain_inv_def)
  from sc base(2,4) have "\<not> changed (nodes g ! ?u)" by (simp add: scratch_inv_def)
  with ch base(2) neg have cf: "chain_front es e g ?u" by (simp add: chain_inv_def)
  let ?le = "last_edge (nodes g ! ?u)"
  from cf base(3) have le: "?le < length es" "to_node (es ! ?le) = ?u"
    and gam: "gamma (nodes g ! ?u)
              = diff32 (potential (nodes g ! from_node (es ! ?le))) (weight (es ! ?le))
                  (potential (nodes g ! ?u))"
    and ne: "?cl \<noteq> []" and fr: "from_node (es ! ?le) \<in> set ?cl"
    by (auto simp: chain_front_def Let_def split: if_splits)
  from fr obtain j where j: "j < length ?cl" "?cl ! j = from_node (es ! ?le)"
    by (auto simp: in_set_conv_nth)
  from gather_chain [OF sc ch j(1), of "[e, ?le]"] obtain xs where
    xs: "gather_cycle es (nodes g) ?v (?cl ! j) [e, ?le] = Some ([e, ?le] @ xs)"
      "back_walk es (?cl ! j) xs ?v"
      "wrap32 (weight_sum es xs)
         = wrap32 (potential (nodes g ! (?cl ! j)) - potential (nodes g ! ?v))"
    by blast
  from ch ne have "chain_node es e g 0" by (simp add: chain_inv_def)
  with base(5) have pv: "potential (nodes g ! ?v)
      = wrap32 (potential (nodes g ! ?u) + weight (es ! e))"
    by (auto simp: chain_node_def Let_def)
  have "gather_cycle es (nodes g) ?v ?u [e] = Some (e # ?le # xs)"
    using base(2,3) le(1) xs(1) j(2) by (subst gather_cycle.simps) (simp add: Let_def)
  then have "neg_cycle_of es g ?v = Some (e # ?le # xs)"
    using base(1,5) by (simp add: neg_cycle_of_def Let_def)
  moreover have "back_walk es ?v (e # ?le # xs) ?v"
    using base(1) le xs(2) j(2) by simp
  moreover have "wrap32 (weight_sum es (e # ?le # xs)) = gamma (nodes g ! ?u)"
  proof -
    let ?pa = "potential (nodes g ! (?cl ! j))" and ?pv = "potential (nodes g ! ?v)"
      and ?pu = "potential (nodes g ! ?u)"
    let ?w = "weight (es ! e) + weight (es ! ?le)"
    have "weight_sum es (e # ?le # xs) = ?w + weight_sum es xs" by simp
    then have "wrap32 (weight_sum es (e # ?le # xs)) = wrap32 (?w + wrap32 (weight_sum es xs))"
      by (simp only: wrap32_add_right)
    also have "\<dots> = wrap32 (?w + (?pa - ?pv))"
      by (simp only: xs(3) wrap32_add_right)
    also have "?w + (?pa - ?pv) = (?w + ?pa) - ?pv" by simp
    also have "wrap32 ((?w + ?pa) - ?pv) = wrap32 ((?w + ?pa) - (?pu + weight (es ! e)))"
      by (simp only: pv wrap32_diff_right)
    also have "(?w + ?pa) - (?pu + weight (es ! e)) = ?pa + weight (es ! ?le) - ?pu" by simp
    also have "wrap32 (?pa + weight (es ! ?le) - ?pu) = gamma (nodes g ! ?u)"
      using gam j(2) by (simp add: diff32_eq)
    finally show ?thesis .
  qed
  ultimately show ?thesis by blast
qed

subsection \<open>The state before the relaxation loop\<close>

lemma length_prepared:
  "length (prepared es g e)
     = max (length (nodes g)) (Suc (max (from_node (es ! e)) (to_node (es ! e))))"
  by (simp add: prepared_def length_ensure_index)

lemma ensure_index_fields:
  assumes "n < length (ensure_index c i)"
  shows "outgoing (ensure_index c i ! n) = (if n < length c then outgoing (c ! n) else [])"
    and "changed (ensure_index c i ! n) \<longleftrightarrow> n < length c \<and> changed (c ! n)"
    and "gamma (ensure_index c i ! n) = (if n < length c then gamma (c ! n) else 0)"
    and "potential (ensure_index c i ! n)
           = (if n < length c then potential (c ! n) else undefined_potential)"
  using assms by (simp_all add: nth_ensure_index new_node_def)

lemma init_potential_fields:
  assumes "n < length ns"
  shows "outgoing (init_potential i ns ! n) = outgoing (ns ! n)"
    and "changed (init_potential i ns ! n) = changed (ns ! n)"
    and "gamma (init_potential i ns ! n) = gamma (ns ! n)"
    and "potential (init_potential i ns ! n)
           = (if n = i \<and> potential (ns ! n) = undefined_potential then 0 else potential (ns ! n))"
  using assms by (auto simp: nth_init_potential)

lemma prepared_fields:
  assumes "n < length (prepared es g e)"
  shows "outgoing (prepared es g e ! n) = (if n < length (nodes g) then outgoing (nodes g ! n) else [])"
    and "changed (prepared es g e ! n) \<longleftrightarrow> n < length (nodes g) \<and> changed (nodes g ! n)"
    and "gamma (prepared es g e ! n) = (if n < length (nodes g) then gamma (nodes g ! n) else 0)"
proof -
  let ?c = "ensure_index (nodes g) (max (from_node (es ! e)) (to_node (es ! e)))"
  from assms have n: "n < length ?c" by (simp add: prepared_def)
  then have n': "n < length (init_potential (from_node (es ! e)) ?c)" by simp
  show "outgoing (prepared es g e ! n) = (if n < length (nodes g) then outgoing (nodes g ! n) else [])"
    unfolding prepared_def
    by (simp only: init_potential_fields(1) [OF n'] init_potential_fields(1) [OF n]
        ensure_index_fields(1) [OF n])
  show "changed (prepared es g e ! n) \<longleftrightarrow> n < length (nodes g) \<and> changed (nodes g ! n)"
    unfolding prepared_def
    by (simp only: init_potential_fields(2) [OF n'] init_potential_fields(2) [OF n]
        ensure_index_fields(2) [OF n])
  show "gamma (prepared es g e ! n) = (if n < length (nodes g) then gamma (nodes g ! n) else 0)"
    unfolding prepared_def
    by (simp only: init_potential_fields(3) [OF n'] init_potential_fields(3) [OF n]
        ensure_index_fields(3) [OF n])
qed

lemma prepared_potential:
  assumes "n < length (prepared es g e)"
  shows "potential (prepared es g e ! n)
           = (let p = (if n < length (nodes g) then potential (nodes g ! n) else undefined_potential)
              in if (n = from_node (es ! e) \<or> n = to_node (es ! e)) \<and> p = undefined_potential
                 then 0 else p)"
proof -
  let ?c = "ensure_index (nodes g) (max (from_node (es ! e)) (to_node (es ! e)))"
  from assms have n: "n < length ?c" by (simp add: prepared_def)
  then have n': "n < length (init_potential (from_node (es ! e)) ?c)" by simp
  have u0: "undefined_potential \<noteq> 0" by (simp add: undefined_potential_def)
  show ?thesis
    unfolding prepared_def Let_def
    by (simp only: init_potential_fields(4) [OF n'] init_potential_fields(4) [OF n]
        ensure_index_fields(4) [OF n]) (use u0 in auto)
qed

lemma start_edge_unfold:
  "start_edge es g e =
     (let ns = prepared es g e; v = to_node (es ! e);
          gv = diff32 (potential (ns ! from_node (es ! e))) (weight (es ! e)) (potential (ns ! v))
      in if gv < 0
         then g\<lparr>gamma_q := pq_push \<lparr>node_idx = v, upd_gamma = gv\<rparr> (gamma_q g),
                nodes := ns[v := (ns ! v)\<lparr>gamma := gv, last_edge := e\<rparr>]\<rparr>
         else g\<lparr>nodes := ns[v := (ns ! v)\<lparr>gamma := gv\<rparr>]\<rparr>)"
proof -
  have "to_node (es ! e) < length (prepared es g e)"
    by (simp add: length_prepared)
  then show ?thesis
    by (simp add: start_edge_def prepared_def Let_def)
qed

lemma start_edge_fields:
  "length (nodes (start_edge es g e)) = length (prepared es g e)"
  "changed_l (start_edge es g e) = changed_l g"
  "outgoing (nodes (start_edge es g e) ! n) = outgoing (prepared es g e ! n)"
  "changed (nodes (start_edge es g e) ! n) = changed (prepared es g e ! n)"
  "potential (nodes (start_edge es g e) ! n) = potential (prepared es g e ! n)"
  "n \<noteq> to_node (es ! e) \<Longrightarrow>
     gamma (nodes (start_edge es g e) ! n) = gamma (prepared es g e ! n)"
  "gamma (nodes (start_edge es g e) ! to_node (es ! e))
     = diff32 (potential (prepared es g e ! from_node (es ! e))) (weight (es ! e)) (potential (prepared es g e ! to_node (es ! e)))"
proof -
  have v: "to_node (es ! e) < length (prepared es g e)"
    by (simp add: length_prepared)
  show "length (nodes (start_edge es g e)) = length (prepared es g e)"
    "changed_l (start_edge es g e) = changed_l g"
    by (simp_all add: start_edge_unfold Let_def)
  show "outgoing (nodes (start_edge es g e) ! n) = outgoing (prepared es g e ! n)"
    "changed (nodes (start_edge es g e) ! n) = changed (prepared es g e ! n)"
    "potential (nodes (start_edge es g e) ! n) = potential (prepared es g e ! n)"
    using v by (simp_all add: start_edge_unfold Let_def nth_list_update)
  show "n \<noteq> to_node (es ! e) \<Longrightarrow>
     gamma (nodes (start_edge es g e) ! n) = gamma (prepared es g e ! n)"
    by (simp add: start_edge_unfold Let_def)
  show "gamma (nodes (start_edge es g e) ! to_node (es ! e))
     = diff32 (potential (prepared es g e ! from_node (es ! e))) (weight (es ! e)) (potential (prepared es g e ! to_node (es ! e)))"
    using v by (simp add: start_edge_unfold Let_def)
qed

lemma start_edge_pushed:
  "gamma (nodes (start_edge es g e) ! to_node (es ! e)) < 0 \<Longrightarrow>
   last_edge (nodes (start_edge es g e) ! to_node (es ! e)) = e \<and>
   gamma_q (start_edge es g e)
     = pq_push \<lparr>node_idx = to_node (es ! e),
                  upd_gamma = gamma (nodes (start_edge es g e) ! to_node (es ! e))\<rparr> (gamma_q g)"
  using start_edge_fields(7) [of es g e]
  by (simp add: start_edge_unfold Let_def length_prepared)

lemma start_edge_not_pushed:
  "\<not> gamma (nodes (start_edge es g e) ! to_node (es ! e)) < 0 \<Longrightarrow>
   gamma_q (start_edge es g e) = gamma_q g"
  using start_edge_fields(7) [of es g e]
  by (simp add: start_edge_unfold Let_def length_prepared)

lemma clean_nth: "clean g \<Longrightarrow> n < length (nodes g) \<Longrightarrow>
  gamma (nodes g ! n) = 0 \<and> \<not> changed (nodes g ! n)"
  by (simp add: clean_def)

lemma wf_graphD:
  "wf_graph es g \<Longrightarrow> n < length (nodes g) \<Longrightarrow> x \<in> set (outgoing (nodes g ! n)) \<Longrightarrow>
   x < length es \<and> from_node (es ! x) = n \<and> to_node (es ! x) < length (nodes g)"
  by (simp add: wf_graph_def)

lemma wf_graphI:
  "(\<And>n x. n < length (nodes g) \<Longrightarrow> x \<in> set (outgoing (nodes g ! n)) \<Longrightarrow>
      x < length es \<and> from_node (es ! x) = n \<and> to_node (es ! x) < length (nodes g))
   \<Longrightarrow> wf_graph es g"
  by (simp add: wf_graph_def)

lemma start_edge_wf:
  assumes "wf_graph es g"
  shows "wf_graph es (start_edge es g e)"
proof (rule wf_graphI)
  fix n x
  assume n: "n < length (nodes (start_edge es g e))"
    and x: "x \<in> set (outgoing (nodes (start_edge es g e) ! n))"
  have le: "length (nodes g) \<le> length (nodes (start_edge es g e))"
    by (simp add: start_edge_fields length_prepared)
  from n have n': "n < length (prepared es g e)" by (simp add: start_edge_fields)
  from x have "x \<in> set (if n < length (nodes g) then outgoing (nodes g ! n) else [])"
    by (simp only: start_edge_fields(3) prepared_fields(1) [OF n'])
  then have "n < length (nodes g)" "x \<in> set (outgoing (nodes g ! n))"
    by (auto split: if_splits)
  from wf_graphD [OF assms this] le
  show "x < length es \<and> from_node (es ! x) = n \<and>
        to_node (es ! x) < length (nodes (start_edge es g e))"
    by simp
qed

lemma start_edge_unchanged:
  assumes "clean g" and "n < length (nodes (start_edge es g e))"
  shows "\<not> changed (nodes (start_edge es g e) ! n)"
    and "n \<noteq> to_node (es ! e) \<Longrightarrow> gamma (nodes (start_edge es g e) ! n) = 0"
  using assms clean_nth [OF assms(1), of n]
  by (auto simp: start_edge_fields prepared_fields)

lemma start_edge_scratch_inv:
  assumes wf: "wf_graph es g" and cl: "clean g"
    and neg: "gamma (nodes (start_edge es g e) ! to_node (es ! e)) < 0"
  shows "scratch_inv es (start_edge es g e)"
proof -
  let ?g = "start_edge es g e" and ?v = "to_node (es ! e)"
  have v: "?v < length (nodes ?g)" by (simp add: start_edge_fields length_prepared)
  from cl have q: "gamma_q ?g = [\<lparr>node_idx = ?v, upd_gamma = gamma (nodes ?g ! ?v)\<rparr>]"
    using start_edge_pushed [OF neg] by (simp add: clean_def pq_push_def)
  from cl have c: "changed_l ?g = []" by (simp add: start_edge_fields clean_def)
  have g0: "\<forall>n < length (nodes ?g). gamma (nodes ?g ! n) \<le> 0"
  proof (intro allI impI)
    fix n assume "n < length (nodes ?g)"
    with start_edge_unchanged(2) [OF cl this] neg show "gamma (nodes ?g ! n) \<le> 0"
      by (cases "n = ?v") auto
  qed
  show ?thesis
    unfolding scratch_inv_def
    using start_edge_wf [OF wf] start_edge_unchanged(1) [OF cl] g0 v neg
    by (simp add: q c)
qed

lemma start_edge_chain_inv:
  assumes cl: "clean g" and e: "e < length es"
    and ne: "from_node (es ! e) \<noteq> to_node (es ! e)"
    and neg: "gamma (nodes (start_edge es g e) ! to_node (es ! e)) < 0"
  shows "chain_inv es e (start_edge es g e)"
proof -
  let ?g = "start_edge es g e" and ?v = "to_node (es ! e)" and ?u = "from_node (es ! e)"
  have v: "?v < length (nodes ?g)" and u: "?u < length (nodes ?g)"
    by (simp_all add: start_edge_fields length_prepared)
  from cl have q: "gamma_q ?g = [\<lparr>node_idx = ?v, upd_gamma = gamma (nodes ?g ! ?v)\<rparr>]"
    using start_edge_pushed [OF neg] by (simp add: clean_def pq_push_def)
  from cl have c: "changed_l ?g = []" by (simp add: start_edge_fields clean_def)
  from start_edge_pushed [OF neg] have le: "last_edge (nodes ?g ! ?v) = e" by simp
  have tgt: "gamma (nodes ?g ! ?v)
      = diff32 (potential (nodes ?g ! ?u)) (weight (es ! e)) (potential (nodes ?g ! ?v))"
    by (simp add: start_edge_fields)
  have front: "chain_front es e ?g t"
    if "t < length (nodes ?g)" "gamma (nodes ?g ! t) < 0" for t
  proof -
    from start_edge_unchanged(2) [OF cl that(1)] that(2) have "t = ?v" by auto
    with le e tgt c show ?thesis by (simp add: chain_front_def Let_def)
  qed
  show ?thesis
    unfolding chain_inv_def using e u v ne le front neg by (simp add: q c)
qed

subsection \<open>The cycle returned by \<open>add_edge\<close>\<close>

lemma add_edge_cases:
  assumes "add_edge ndebug tie es g e = Some (g', cyc)"
  obtains
    (cycle) g2 where "e < length es"
      "relax ndebug tie es (from_node (es ! e)) (start_edge es g e) = Some g2"
      "gamma (nodes g2 ! from_node (es ! e)) < 0"
      "neg_cycle_of es g2 (to_node (es ! e)) = Some cyc"
      "reset_scratch tie (to_node (es ! e)) g2 = Some g'"
  | (added) g2 where "e < length es"
      "relax ndebug tie es (from_node (es ! e)) (start_edge es g e) = Some g2"
      "\<not> gamma (nodes g2 ! from_node (es ! e)) < 0"
      "cyc = []"
      "reset_scratch tie (to_node (es ! e)) (install (from_node (es ! e)) e g2) = Some g'"
  using assms
  by (auto simp: add_edge_def Let_def install_def split: if_splits option.splits)

lemma gather_cycle_done: "gather_cycle es ns v v acc = Some acc"
  by (simp add: gather_cycle.simps)

lemma add_edge_cycle:
  assumes wf: "wf_graph es g" and cl: "clean g"
    and ae: "add_edge ndebug tie es g e = Some (g', cyc)" and ne: "cyc \<noteq> []"
  shows "hd cyc = e \<and> back_walk es (to_node (es ! e)) cyc (to_node (es ! e)) \<and>
         wrap32 (weight_sum es cyc) < 0"
  using ae
proof (cases rule: add_edge_cases)
  case (added g2)
  with ne show ?thesis by simp
next
  case (cycle g2)
  let ?g1 = "start_edge es g e" and ?u = "from_node (es ! e)" and ?v = "to_node (es ! e)"
  have u: "?u < length (nodes ?g1)"
    by (simp add: start_edge_fields length_prepared)
  show ?thesis
  proof (cases "gamma (nodes ?g1 ! ?v) < 0")
    case False
    from cl start_edge_not_pushed [OF False] have "gamma_q ?g1 = []" by (simp add: clean_def)
    with cycle(2) have "g2 = ?g1" by (simp add: relax_stop)
    with cycle(3) False start_edge_unchanged(2) [OF cl u] show ?thesis
      by (cases "?u = ?v") auto
  next
    case neg: True
    show ?thesis
    proof (cases "?u = ?v")
      case True
      with neg cycle(2) have g2: "g2 = ?g1" by (simp add: relax_stop)
      from start_edge_pushed [OF neg] have "last_edge (nodes ?g1 ! ?v) = e" by simp
      with cycle(1,4) True have "cyc = [e]"
        by (simp add: neg_cycle_of_def Let_def g2 gather_cycle_done)
      moreover from True have "gamma (nodes ?g1 ! ?v) = weight (es ! e)"
        by (simp add: start_edge_fields)
      ultimately show ?thesis using neg cycle(1) True by simp
    next
      case False
      have "scratch_inv es ?g1" using wf cl neg by (rule start_edge_scratch_inv)
      moreover have "chain_inv es e ?g1" using cl cycle(1) False neg by (rule start_edge_chain_inv)
      ultimately have inv: "scratch_inv es g2" "chain_inv es e g2"
        using relax_basic [OF cycle(2) refl] by simp_all
      from neg_cycle_of_chain [OF inv cycle(3)] cycle(3,4) show ?thesis by auto
    qed
  qed
qed

subsection \<open>The returned cycle: weight and shape\<close>


lemma graph_s1_quiescent: "quiescent edges_s1 graph_s1"
  by code_simp

lemma graph_s1_reject:
  "add_edge False tie_first edges_s1 graph_s1 2 = Some (graph_s1_rejected, [2, 1, 0])"
  by code_simp



text \<open>
  The sum of the weights need not be negative as a number.  The graph \<open>graph_wrap\<close> is
  at quiescence.  In the call for the edge \<open>0 \<rightarrow> 1\<close> of weight \<open>2^31 - 1\<close> the first gamma,
  \<open>0 + (2^31 - 1) - (-2^30)\<close>, does not fit and is stored as \<open>-2^30 - 1\<close>; the call
  returns the sequence \<open>[2, 1]\<close>, whose weights add up to \<open>2^31 + 2^30 - 1\<close>.
\<close>

lemma cycle_weight_wraps:
  "add_edges False tie_first edges_wrap [0, 1] empty_graph = Some (graph_wrap, [[], []]) \<and>
   quiescent edges_wrap graph_wrap \<and>
   map_option snd (add_edge False tie_first edges_wrap graph_wrap 2) = Some [2, 1] \<and>
   weight_sum edges_wrap [2, 1] = 3221225471 \<and>
   wrap32 (weight_sum edges_wrap [2, 1]) = - 1073741825"
  by code_simp

text \<open>
  C4, as amended.  Whenever \<open>add_edge\<close>, called on a graph with a well-formed adjacency
  and clean scratch state, returns a sequence that is not empty, the sequence starts
  with the new edge and walks the cycle against the direction of its edges: the
  \<open>from\<close> endpoint of each returned edge is the \<open>to\<close> endpoint of the next one, and the
  \<open>from\<close> endpoint of the last edge is the \<open>to\<close> endpoint of the first.
\<close>

theorem cycle_walks_backwards:
  assumes "wf_graph es g" and "clean g"
    and "add_edge ndebug tie es g e = Some (g', cyc)" and "cyc \<noteq> []"
  shows "(\<forall>i. Suc i < length cyc \<longrightarrow>
            from_node (es ! (cyc ! i)) = to_node (es ! (cyc ! Suc i))) \<and>
         from_node (es ! last cyc) = to_node (es ! hd cyc) \<and>
         (\<forall>x \<in> set cyc. x < length es) \<and> hd cyc = e"
proof -
  from add_edge_cycle [OF assms]
  have "hd cyc = e" "back_walk es (to_node (es ! e)) cyc (to_node (es ! e))" by simp_all
  with back_walk_steps [OF this(2) assms(4)] show ?thesis by simp
qed

theorem cycle_walks_backwards_witness:
  "wf_graph edges_s1 graph_s1 \<and> clean graph_s1 \<and>
   add_edge False tie_first edges_s1 graph_s1 2 = Some (graph_s1_rejected, [2, 1, 0]) \<and>
   from_node (edges_s1 ! 2) = to_node (edges_s1 ! 1) \<and>
   from_node (edges_s1 ! 1) = to_node (edges_s1 ! 0) \<and>
   from_node (edges_s1 ! 0) = to_node (edges_s1 ! 2)"
proof -
  from graph_s1_quiescent have h: "wf_graph edges_s1 graph_s1" "clean graph_s1"
    by (simp_all add: quiescent_def)
  have ne: "[2, 1, 0] \<noteq> ([] :: nat list)" by simp
  from cycle_walks_backwards [OF h graph_s1_reject ne]
  have "\<forall>i. Suc i < length [2, 1, 0 :: nat] \<longrightarrow>
          from_node (edges_s1 ! ([2, 1, 0] ! i)) = to_node (edges_s1 ! ([2, 1, 0] ! Suc i))"
    and "from_node (edges_s1 ! last [2, 1, 0]) = to_node (edges_s1 ! hd [2, 1, 0])"
    by blast+
  from this(1) [rule_format, of 0] this(1) [rule_format, of 1] this(2) h graph_s1_reject
  show ?thesis by simp
qed

text \<open>
  C4 as stated fails.  In scenario S1 the third edge is rejected with the sequence
  \<open>[2, 1, 0]\<close>, that is \<open>c \<rightarrow> a\<close>, \<open>b \<rightarrow> c\<close>, \<open>a \<rightarrow> b\<close>: the \<open>to\<close> endpoint of the first
  returned edge is \<open>a\<close>, the \<open>from\<close> endpoint of the next is \<open>b\<close>.
\<close>

theorem cycle_order_counterexample:
  "add_edges False tie_first edges_s1 [0, 1] empty_graph = Some (graph_s1, [[], []]) \<and>
   add_edge False tie_first edges_s1 graph_s1 2 = Some (graph_s1_rejected, [2, 1, 0]) \<and>
   to_node (edges_s1 ! 2) = 0 \<and> from_node (edges_s1 ! 1) = 1"
  by code_simp

section \<open>The consistency graph: calls at quiescence\<close>

subsection \<open>The relaxation loop as Dijkstra's algorithm on reduced weights\<close>

lemma dijkstra_invD:
  assumes "dijkstra_inv es p0 g"
  shows "\<And>n. n < length (nodes g) \<Longrightarrow> \<not> changed (nodes g ! n) \<Longrightarrow> potential (nodes g ! n) = p0 n"
    and "\<And>n. n < length (nodes g) \<Longrightarrow> changed (nodes g ! n) \<Longrightarrow> potential (nodes g ! n) \<le> p0 n"
    and "\<And>n x. n < length (nodes g) \<Longrightarrow> x \<in> set (gamma_q g) \<Longrightarrow> changed (nodes g ! n)
           \<Longrightarrow> potential (nodes g ! n) - p0 n \<le> upd_gamma x"
    and "\<And>x. x \<in> set (gamma_q g) \<Longrightarrow> \<not> changed (nodes g ! node_idx x)
           \<Longrightarrow> gamma (nodes g ! node_idx x) \<le> upd_gamma x"
    and "\<And>t. t < length (nodes g) \<Longrightarrow> \<not> changed (nodes g ! t) \<Longrightarrow> gamma (nodes g ! t) < 0
           \<Longrightarrow> \<lparr>node_idx = t, upd_gamma = gamma (nodes g ! t)\<rparr> \<in> set (gamma_q g)"
    and "\<And>x. x \<in> set (gamma_q g) \<Longrightarrow> upd_gamma (hd (gamma_q g)) \<le> upd_gamma x"
    and "\<And>a x. a < length (nodes g) \<Longrightarrow> x \<in> set (outgoing (nodes g ! a))
           \<Longrightarrow> 0 \<le> p0 a + weight (es ! x) - p0 (to_node (es ! x))"
    and "\<And>a x. a < length (nodes g) \<Longrightarrow> x \<in> set (outgoing (nodes g ! a)) \<Longrightarrow> changed (nodes g ! a)
           \<Longrightarrow> (if changed (nodes g ! to_node (es ! x)) then 0
                else gamma (nodes g ! to_node (es ! x)))
               \<le> potential (nodes g ! a) + weight (es ! x) - potential (nodes g ! to_node (es ! x))"
  using assms unfolding dijkstra_inv_def by blast+

lemma scratch_invD:
  assumes "scratch_inv es g"
  shows "wf_graph es g"
    and "\<And>n. n < length (nodes g) \<Longrightarrow> changed (nodes g ! n) \<longleftrightarrow> n \<in> set (changed_l g)"
    and "\<And>n. n < length (nodes g) \<Longrightarrow> gamma (nodes g ! n) \<le> 0"
    and "\<And>n. n < length (nodes g) \<Longrightarrow> changed (nodes g ! n) \<Longrightarrow> gamma (nodes g ! n) = 0"
    and "\<And>x. x \<in> set (gamma_q g) \<Longrightarrow> node_idx x < length (nodes g)"
    and "\<And>x. x \<in> set (gamma_q g) \<Longrightarrow> \<not> changed (nodes g ! node_idx x)
           \<Longrightarrow> gamma (nodes g ! node_idx x) < 0"
  using assms unfolding scratch_inv_def by blast+

text \<open>The assertion of the loop holds: the top entry carries the gamma of its node.\<close>

lemma top_gamma:
  assumes sc: "scratch_inv es g" and dj: "dijkstra_inv es p0 g"
    and ne: "gamma_q g \<noteq> []" and unch: "\<not> changed (nodes g ! node_idx (hd (gamma_q g)))"
  shows "gamma (nodes g ! node_idx (hd (gamma_q g))) = upd_gamma (hd (gamma_q g))"
proof -
  let ?s = "node_idx (hd (gamma_q g))"
  from ne have top: "hd (gamma_q g) \<in> set (gamma_q g)" by simp
  from scratch_invD(5) [OF sc top] have s: "?s < length (nodes g)" .
  from scratch_invD(6) [OF sc top unch] have neg: "gamma (nodes g ! ?s) < 0" .
  from dijkstra_invD(4) [OF dj top unch] have "gamma (nodes g ! ?s) \<le> upd_gamma (hd (gamma_q g))" .
  moreover from dijkstra_invD(6) [OF dj dijkstra_invD(5) [OF dj s unch neg]]
  have "upd_gamma (hd (gamma_q g)) \<le> gamma (nodes g ! ?s)" by simp
  ultimately show ?thesis by simp
qed

lemma range_invD:
  assumes "range_inv es p0 lo g"
  shows "- 805306368 \<le> lo" and "lo \<le> 0"
    and "\<And>n. n < length (nodes g) \<Longrightarrow> lo \<le> gamma (nodes g ! n)"
    and "\<And>n. n < length (nodes g) \<Longrightarrow> p0 n + lo \<le> potential (nodes g ! n)"
    and "\<And>a x. a < length (nodes g) \<Longrightarrow> x \<in> set (outgoing (nodes g ! a))
           \<Longrightarrow> small (p0 a) \<and> small (p0 (to_node (es ! x))) \<and> small (weight (es ! x))"
    and "\<And>x. x \<in> set (gamma_q g) \<Longrightarrow> small (p0 (node_idx x))"
  using assms unfolding range_inv_def by blast+

text \<open>
  Within the ranges of \<open>range_inv\<close> the operations of one visit are exact: the sum that
  lowers the potential of the visited node, and the gamma computed for each of its
  outgoing edges.
\<close>

lemma visit_exact:
  assumes sc: "scratch_inv es g" and dj: "dijkstra_inv es p0 g" and rg: "range_inv es p0 lo g"
    and ne: "gamma_q g \<noteq> []" and s_def: "s = node_idx (hd (gamma_q g))"
    and unch: "\<not> changed (nodes g ! s)"
  shows "wrap32 (potential (nodes g ! s) + gamma (nodes g ! s))
           = potential (nodes g ! s) + gamma (nodes g ! s)"
    and "\<And>x. x \<in> set (outgoing (nodes g ! s)) \<Longrightarrow>
           diff32 (potential (nodes (mark_changed s g) ! s)) (weight (es ! x))
             (potential (nodes (mark_changed s g) ! to_node (es ! x)))
           = potential (nodes (mark_changed s g) ! s) + weight (es ! x)
             - potential (nodes (mark_changed s g) ! to_node (es ! x))"
proof -
  let ?gm = "mark_changed s g" and ?N = "length (nodes g)"
  from ne have top: "hd (gamma_q g) \<in> set (gamma_q g)" by simp
  from scratch_invD(5) [OF sc top] have s: "s < ?N" by (simp add: s_def)
  from dijkstra_invD(1) [OF dj s unch] have ps: "potential (nodes g ! s) = p0 s" .
  from range_invD(6) [OF rg top] have sp: "small (p0 s)" by (simp add: s_def)
  note lo = range_invD(1,2) [OF rg]
  from range_invD(3) [OF rg s] scratch_invD(3) [OF sc s]
  have gs: "lo \<le> gamma (nodes g ! s)" "gamma (nodes g ! s) \<le> 0" by simp_all
  have rs: "- 1073741824 \<le> potential (nodes g ! s) + gamma (nodes g ! s)"
    "potential (nodes g ! s) + gamma (nodes g ! s) \<le> 268435456"
    using sp lo gs by (simp_all add: ps small_def)
  then show exm: "wrap32 (potential (nodes g ! s) + gamma (nodes g ! s))
           = potential (nodes g ! s) + gamma (nodes g ! s)"
    by (intro wrap32_id) simp_all
  note mk = mark_changed_nth [OF s]
  have pot_range: "- 1073741824 \<le> potential (nodes ?gm ! n) \<and> potential (nodes ?gm ! n) \<le> 268435456"
    if n: "n < ?N" "small (p0 n)" for n
  proof (cases "n = s")
    case True
    with rs exm show ?thesis by (simp add: mk)
  next
    case False
    from dijkstra_invD(1,2) [OF dj n(1)] have "potential (nodes g ! n) \<le> p0 n"
      by (cases "changed (nodes g ! n)") simp_all
    with range_invD(4) [OF rg n(1)] n(2) lo False show ?thesis
      by (simp add: mk small_def)
  qed
  fix x assume x: "x \<in> set (outgoing (nodes g ! s))"
  from wf_graphD [OF scratch_invD(1) [OF sc] s x] have t: "to_node (es ! x) < ?N" by simp
  from range_invD(5) [OF rg s x] have sm: "small (p0 (to_node (es ! x)))" "small (weight (es ! x))"
    by simp_all
  from pot_range [OF s sp] pot_range [OF t sm(1)] sm(2)
  have "- 2147483648 \<le> potential (nodes ?gm ! s) + weight (es ! x)
             - potential (nodes ?gm ! to_node (es ! x))"
    "potential (nodes ?gm ! s) + weight (es ! x)
             - potential (nodes ?gm ! to_node (es ! x)) < 2147483648"
    by (simp_all add: small_def)
  then show "diff32 (potential (nodes ?gm ! s)) (weight (es ! x))
             (potential (nodes ?gm ! to_node (es ! x)))
           = potential (nodes ?gm ! s) + weight (es ! x)
             - potential (nodes ?gm ! to_node (es ! x))"
    by (rule diff32_exact)
qed

lemma dijkstra_inv_visit:
  assumes sc: "scratch_inv es g" and dj: "dijkstra_inv es p0 g"
    and ne: "gamma_q g \<noteq> []" and s_def: "s = node_idx (hd (gamma_q g))"
    and unch: "\<not> changed (nodes g ! s)"
    and vis: "visit ndebug es s g = Some g'"
    and exm: "wrap32 (potential (nodes g ! s) + gamma (nodes g ! s))
           = potential (nodes g ! s) + gamma (nodes g ! s)"
    and exe: "\<And>x. x \<in> set (outgoing (nodes g ! s)) \<Longrightarrow>
           diff32 (potential (nodes (mark_changed s g) ! s)) (weight (es ! x))
             (potential (nodes (mark_changed s g) ! to_node (es ! x)))
           = potential (nodes (mark_changed s g) ! s) + weight (es ! x)
             - potential (nodes (mark_changed s g) ! to_node (es ! x))"
  shows "dijkstra_inv es p0 g' \<and> gamma_q g' \<noteq> [] \<and> hd (gamma_q g') = hd (gamma_q g)"
proof -
  let ?gm = "mark_changed s g" and ?N = "length (nodes g)"
  define c where "c = gamma (nodes g ! s)"
  from ne have top: "hd (gamma_q g) \<in> set (gamma_q g)" by simp
  from scratch_invD(5) [OF sc top] have s: "s < ?N" by (simp add: s_def)
  from scratch_invD(6) [OF sc top] unch have c_neg: "c < 0" by (simp add: s_def c_def)
  from top_gamma [OF sc dj ne] unch have c_top: "upd_gamma (hd (gamma_q g)) = c"
    by (simp add: s_def c_def)
  from dijkstra_invD(1) [OF dj s unch] have ps: "potential (nodes g ! s) = p0 s" .
  from exm have exm' [simp]: "wrap32 (p0 s + c) = p0 s + c"
    "wrap32 (p0 s + gamma (nodes g ! s)) = p0 s + gamma (nodes g ! s)"
    by (simp_all add: ps c_def)
  note mk = mark_changed_nth [OF s]
  have ro: "relax_out es s (outgoing (nodes g ! s)) ?gm = Some g'"
    using vis by (rule visit_relax_out)
  note fr = relax_out_frame [OF ro]
  have len: "length (nodes g') = ?N" by (simp add: fr)
  have pot': "potential (nodes g' ! n) = (if n = s then p0 s + c else potential (nodes g ! n))" for n
    by (simp add: fr mk ps c_def)
  have chg': "changed (nodes g' ! n) \<longleftrightarrow> n = s \<or> changed (nodes g ! n)" for n
    by (simp add: fr mk)
  have out': "outgoing (nodes g' ! n) = outgoing (nodes g ! n)" for n
    by (simp add: fr mk)
  have gam': "gamma (nodes g' ! n) \<le> gamma (nodes g ! n)" if "n \<noteq> s" for n
    using relax_out_mono [OF ro, of n] that by (simp add: mk)
  have pot_le: "potential (nodes g ! n) \<le> p0 n" if "n < ?N" for n
    using dijkstra_invD(1,2) [OF dj that] by (cases "changed (nodes g ! n)") simp_all
  have edge: "x < length es \<and> from_node (es ! x) = s \<and> to_node (es ! x) < ?N"
    if "x \<in> set (outgoing (nodes g ! s))" for x
    using wf_graphD [OF scratch_invD(1) [OF sc] s that] .
  have rw0: "0 \<le> p0 s + weight (es ! x) - p0 (to_node (es ! x))"
    if "x \<in> set (outgoing (nodes g ! s))" for x
    using dijkstra_invD(7) [OF dj s that] .
  have above: "c \<le> potential (nodes ?gm ! s) + weight (es ! x) - potential (nodes ?gm ! to_node (es ! x))"
    if x: "x \<in> set (outgoing (nodes g ! s))" for x
  proof (cases "to_node (es ! x) = s")
    case True
    with rw0 [OF x] c_neg show ?thesis by (simp add: mk)
  next
    case False
    from edge [OF x] have "to_node (es ! x) < ?N" by simp
    from pot_le [OF this] rw0 [OF x] False show ?thesis by (simp add: mk ps c_def)
  qed
  have above32: "c \<le> diff32 (potential (nodes ?gm ! s)) (weight (es ! x))
                      (potential (nodes ?gm ! to_node (es ! x)))"
    if x: "x \<in> set (outgoing (nodes g ! s))" for x
    using above [OF x] by (simp only: exe [OF x])
  have hd': "gamma_q g' \<noteq> [] \<and> hd (gamma_q g') = hd (gamma_q g)"
    using relax_out_hd [OF ro] ne above32 by (simp add: c_top)
  have new: "x \<in> set (gamma_q g) \<or>
      (node_idx x < ?N \<and> node_idx x \<noteq> s \<and> \<not> changed (nodes g ! node_idx x) \<and> c \<le> upd_gamma x \<and>
       gamma (nodes g' ! node_idx x) \<le> upd_gamma x)"
    if x: "x \<in> set (gamma_q g')" for x
  proof -
    from relax_out_new [OF ro x]
    consider "x \<in> set (gamma_q g)"
      | "node_idx x < ?N" "\<not> changed (nodes ?gm ! node_idx x)"
        "\<exists>st \<in> set (outgoing (nodes g ! s)). node_idx x = to_node (es ! st) \<and>
           upd_gamma x = diff32 (potential (nodes ?gm ! s)) (weight (es ! st))
                           (potential (nodes ?gm ! node_idx x))"
        "gamma (nodes g' ! node_idx x) \<le> upd_gamma x"
      by auto
    then show ?thesis
    proof cases
      case 1
      then show ?thesis by simp
    next
      case 2
      from 2(3) obtain st where st: "st \<in> set (outgoing (nodes g ! s))"
        "node_idx x = to_node (es ! st)"
        "upd_gamma x = diff32 (potential (nodes ?gm ! s)) (weight (es ! st))
                         (potential (nodes ?gm ! node_idx x))"
        by blast
      from above32 [OF st(1)] st(2,3) have "c \<le> upd_gamma x" by simp
      with 2(1,2,4) show ?thesis by (simp add: mk)
    qed
  qed
  have D1: "\<forall>n < length (nodes g'). \<not> changed (nodes g' ! n) \<longrightarrow> potential (nodes g' ! n) = p0 n"
    using dijkstra_invD(1) [OF dj] by (simp add: len pot' chg')
  have D2: "\<forall>n < length (nodes g'). changed (nodes g' ! n) \<longrightarrow> potential (nodes g' ! n) \<le> p0 n"
    using dijkstra_invD(2) [OF dj] c_neg by (simp add: len pot' chg')
  have D3: "\<forall>n < length (nodes g'). \<forall>x \<in> set (gamma_q g'). changed (nodes g' ! n)
        \<longrightarrow> potential (nodes g' ! n) - p0 n \<le> upd_gamma x"
  proof (intro allI impI ballI)
    fix n x
    assume n: "n < length (nodes g')" and x: "x \<in> set (gamma_q g')"
      and cn: "changed (nodes g' ! n)"
    have bound: "potential (nodes g' ! n) - p0 n \<le> c"
    proof (cases "n = s")
      case True
      then show ?thesis by (simp add: pot')
    next
      case False
      with cn have "changed (nodes g ! n)" by (simp add: chg')
      from dijkstra_invD(3) [OF dj _ top this] n False show ?thesis
        by (simp add: len pot' c_top)
    qed
    from new [OF x] show "potential (nodes g' ! n) - p0 n \<le> upd_gamma x"
    proof
      assume old: "x \<in> set (gamma_q g)"
      from dijkstra_invD(6) [OF dj old] bound show ?thesis by (simp add: c_top)
    next
      assume "node_idx x < ?N \<and> node_idx x \<noteq> s \<and> \<not> changed (nodes g ! node_idx x) \<and>
        c \<le> upd_gamma x \<and> gamma (nodes g' ! node_idx x) \<le> upd_gamma x"
      with bound show ?thesis by simp
    qed
  qed
  have D4: "\<forall>x \<in> set (gamma_q g'). \<not> changed (nodes g' ! node_idx x)
        \<longrightarrow> gamma (nodes g' ! node_idx x) \<le> upd_gamma x"
  proof (intro ballI impI)
    fix x assume x: "x \<in> set (gamma_q g')" and cx: "\<not> changed (nodes g' ! node_idx x)"
    from cx have nx: "node_idx x \<noteq> s" "\<not> changed (nodes g ! node_idx x)"
      by (simp_all add: chg')
    from new [OF x] show "gamma (nodes g' ! node_idx x) \<le> upd_gamma x"
    proof
      assume old: "x \<in> set (gamma_q g)"
      from dijkstra_invD(4) [OF dj old nx(2)] gam' [OF nx(1)] show ?thesis by simp
    next
      assume "node_idx x < ?N \<and> node_idx x \<noteq> s \<and> \<not> changed (nodes g ! node_idx x) \<and>
        c \<le> upd_gamma x \<and> gamma (nodes g' ! node_idx x) \<le> upd_gamma x"
      then show ?thesis by simp
    qed
  qed
  have D5: "\<forall>t < length (nodes g'). \<not> changed (nodes g' ! t) \<and> gamma (nodes g' ! t) < 0
        \<longrightarrow> \<lparr>node_idx = t, upd_gamma = gamma (nodes g' ! t)\<rparr> \<in> set (gamma_q g')"
  proof (intro allI impI)
    fix t assume t: "t < length (nodes g')"
      and h: "\<not> changed (nodes g' ! t) \<and> gamma (nodes g' ! t) < 0"
    then have ts: "t \<noteq> s" "\<not> changed (nodes g ! t)" by (simp_all add: chg')
    show "\<lparr>node_idx = t, upd_gamma = gamma (nodes g' ! t)\<rparr> \<in> set (gamma_q g')"
    proof (cases "gamma (nodes g' ! t) < gamma (nodes ?gm ! t)")
      case True
      from relax_out_lowered [OF ro True] show ?thesis by blast
    next
      case False
      with relax_out_mono [OF ro, of t] ts(1)
      have eq: "gamma (nodes g' ! t) = gamma (nodes g ! t)" by (simp add: mk)
      with h have "gamma (nodes g ! t) < 0" by simp
      from dijkstra_invD(5) [OF dj _ ts(2) this] t relax_out_queue [OF ro] eq
      show ?thesis by (auto simp: len)
    qed
  qed
  have D6: "\<forall>x \<in> set (gamma_q g'). upd_gamma (hd (gamma_q g')) \<le> upd_gamma x"
    using relax_out_head_least [OF ro] dijkstra_invD(6) [OF dj] by simp
  have D7: "\<forall>a < length (nodes g'). \<forall>x \<in> set (outgoing (nodes g' ! a)).
        0 \<le> p0 a + weight (es ! x) - p0 (to_node (es ! x))"
    using dijkstra_invD(7) [OF dj] by (simp add: len out')
  have D8: "\<forall>a < length (nodes g'). \<forall>x \<in> set (outgoing (nodes g' ! a)).
        changed (nodes g' ! a) \<longrightarrow>
          (if changed (nodes g' ! to_node (es ! x)) then 0 else gamma (nodes g' ! to_node (es ! x)))
          \<le> potential (nodes g' ! a) + weight (es ! x) - potential (nodes g' ! to_node (es ! x))"
  proof (intro allI impI ballI)
    fix a x
    assume a: "a < length (nodes g')" and x: "x \<in> set (outgoing (nodes g' ! a))"
      and ca: "changed (nodes g' ! a)"
    let ?b = "to_node (es ! x)"
    from a have a': "a < ?N" by (simp add: len)
    from x have x': "x \<in> set (outgoing (nodes g ! a))" by (simp add: out')
    from wf_graphD [OF scratch_invD(1) [OF sc] a' x'] have b: "?b < ?N" by simp
    show "(if changed (nodes g' ! ?b) then 0 else gamma (nodes g' ! ?b))
          \<le> potential (nodes g' ! a) + weight (es ! x) - potential (nodes g' ! ?b)"
    proof (cases "a = s")
      case as: True
      show ?thesis
      proof (cases "?b = s")
        case True
        with rw0 [of x] x' as show ?thesis by (simp add: pot' chg')
      next
        case bs: False
        show ?thesis
        proof (cases "changed (nodes g ! ?b)")
          case True
          from dijkstra_invD(3) [OF dj b top True] rw0 [of x] x' as bs True
          show ?thesis by (simp add: pot' chg' c_top)
        next
          case False
          from x' as have xs: "x \<in> set (outgoing (nodes g ! s))" by simp
          from False bs have "\<not> changed (nodes ?gm ! ?b)" by (simp add: mk)
          from relax_out_relaxed [OF ro xs this]
          have "gamma (nodes g' ! ?b)
              \<le> potential (nodes ?gm ! s) + weight (es ! x) - potential (nodes ?gm ! ?b)"
            by (simp only: exe [OF xs])
          with as bs False show ?thesis by (simp add: pot' chg' mk ps c_def)
        qed
      qed
    next
      case as: False
      with ca have ca': "changed (nodes g ! a)" by (simp add: chg')
      note old = dijkstra_invD(8) [OF dj a' x' ca']
      show ?thesis
      proof (cases "?b = s")
        case True
        with old unch as ps show ?thesis by (simp add: pot' chg' c_def)
      next
        case bs: False
        show ?thesis
        proof (cases "changed (nodes g ! ?b)")
          case True
          with old as bs show ?thesis by (simp add: pot' chg')
        next
          case False
          with old as bs gam' [OF bs] show ?thesis by (simp add: pot' chg')
        qed
      qed
    qed
  qed
  from D1 D2 D3 D4 D5 D6 D7 D8 have "dijkstra_inv es p0 g'"
    unfolding dijkstra_inv_def by blast
  with hd' show ?thesis by simp
qed

lemma range_inv_visit:
  assumes sc: "scratch_inv es g" and dj: "dijkstra_inv es p0 g" and rg: "range_inv es p0 lo g"
    and ne: "gamma_q g \<noteq> []" and s_def: "s = node_idx (hd (gamma_q g))"
    and unch: "\<not> changed (nodes g ! s)"
    and vis: "visit ndebug es s g = Some g'"
  shows "range_inv es p0 lo g'"
proof -
  let ?gm = "mark_changed s g" and ?N = "length (nodes g)"
  from ne have top: "hd (gamma_q g) \<in> set (gamma_q g)" by simp
  from scratch_invD(5) [OF sc top] have s: "s < ?N" by (simp add: s_def)
  from dijkstra_invD(1) [OF dj s unch] have ps: "potential (nodes g ! s) = p0 s" .
  note ex = visit_exact [OF sc dj rg ne s_def unch]
  note lo = range_invD(1,2) [OF rg]
  note mk = mark_changed_nth [OF s]
  have ro: "relax_out es s (outgoing (nodes g ! s)) ?gm = Some g'"
    using vis by (rule visit_relax_out)
  note fr = relax_out_frame [OF ro]
  have len: "length (nodes g') = ?N" by (simp add: fr)
  have pgs: "potential (nodes ?gm ! s) = p0 s + gamma (nodes g ! s)"
    by (simp add: mk ps ex(1) [unfolded ps])
  have R2: "lo \<le> gamma (nodes g' ! n)" if n: "n < ?N" for n
  proof (cases "gamma (nodes g' ! n) < gamma (nodes ?gm ! n)")
    case True
    from relax_out_lowered [OF ro True] obtain st where
      un: "\<not> changed (nodes ?gm ! n)" and st: "st \<in> set (outgoing (nodes g ! s))"
        "to_node (es ! st) = n"
        "gamma (nodes g' ! n)
           = diff32 (potential (nodes ?gm ! s)) (weight (es ! st)) (potential (nodes ?gm ! n))"
      by blast
    from un have ns: "n \<noteq> s" "\<not> changed (nodes g ! n)" by (simp_all add: mk)
    from dijkstra_invD(1) [OF dj n ns(2)] ns(1)
    have pn: "potential (nodes ?gm ! n) = p0 n" by (simp add: mk)
    from ex(2) [OF st(1)] st(2,3)
    have "gamma (nodes g' ! n) = p0 s + gamma (nodes g ! s) + weight (es ! st) - p0 n"
      by (simp add: pgs pn)
    with dijkstra_invD(7) [OF dj s st(1)] st(2) range_invD(3) [OF rg s] show ?thesis by simp
  next
    case False
    with relax_out_mono [OF ro, of n]
    have "gamma (nodes g' ! n) = gamma (nodes ?gm ! n)" by simp
    with range_invD(3) [OF rg n] lo(2) show ?thesis by (simp add: mk)
  qed
  have R3: "p0 n + lo \<le> potential (nodes g' ! n)" if n: "n < ?N" for n
  proof (cases "n = s")
    case True
    with range_invD(3) [OF rg s] show ?thesis by (simp add: fr pgs)
  next
    case False
    with range_invD(4) [OF rg n] show ?thesis by (simp add: fr mk)
  qed
  have R5: "small (p0 (node_idx x))" if x: "x \<in> set (gamma_q g')" for x
  proof -
    from relax_out_new [OF ro x]
    consider "x \<in> set (gamma_q g)"
      | st where "st \<in> set (outgoing (nodes g ! s))" "node_idx x = to_node (es ! st)"
      by (auto simp: mk)
    then show ?thesis
    proof cases
      case 1
      then show ?thesis by (rule range_invD(6) [OF rg])
    next
      case 2
      with range_invD(5) [OF rg s 2(1)] show ?thesis by simp
    qed
  qed
  show ?thesis
    unfolding range_inv_def using lo R2 R3 R5 range_invD(5) [OF rg]
    by (simp add: len fr mk)
qed

lemma range_inv_pop:
  assumes "range_inv es p0 lo g"
  shows "range_inv es p0 lo (g\<lparr>gamma_q := pq_pop tie (gamma_q g)\<rparr>)"
proof -
  have "set (pq_pop tie (gamma_q g)) \<subseteq> set (gamma_q g)"
    by (cases "gamma_q g") (auto simp: set_pq_pop)
  with assms show ?thesis
    unfolding range_inv_def by auto
qed

lemma dijkstra_inv_pop:
  assumes dj: "dijkstra_inv es p0 g" and ne: "gamma_q g \<noteq> []"
    and chg: "changed (nodes g ! node_idx (hd (gamma_q g)))"
  shows "dijkstra_inv es p0 (g\<lparr>gamma_q := pq_pop tie (gamma_q g)\<rparr>)"
proof -
  let ?q = "pq_pop tie (gamma_q g)"
  have sub: "x \<in> set (gamma_q g)" if "x \<in> set ?q" for x
    using that ne by (cases "gamma_q g") (auto simp: set_pq_pop)
  have keep: "x \<in> set ?q" if "x \<in> set (gamma_q g)" "x \<noteq> hd (gamma_q g)" for x
    using that ne by (cases "gamma_q g") (auto simp: set_pq_pop)
  have D5: "\<lparr>node_idx = t, upd_gamma = gamma (nodes g ! t)\<rparr> \<in> set ?q"
    if t: "t < length (nodes g)" "\<not> changed (nodes g ! t)" "gamma (nodes g ! t) < 0" for t
  proof -
    let ?x = "\<lparr>node_idx = t, upd_gamma = gamma (nodes g ! t)\<rparr>"
    from dijkstra_invD(5) [OF dj t] have "?x \<in> set (gamma_q g)" .
    moreover have "?x \<noteq> hd (gamma_q g)"
    proof
      assume "?x = hd (gamma_q g)"
      then have "node_idx (hd (gamma_q g)) = node_idx ?x" by simp
      then have "node_idx (hd (gamma_q g)) = t" by simp
      with chg t(2) show False by simp
    qed
    ultimately show ?thesis by (rule keep)
  qed
  show ?thesis
    unfolding dijkstra_inv_def
  proof (intro conjI)
    show "\<forall>n<length (nodes (g\<lparr>gamma_q := ?q\<rparr>)).
        \<forall>x\<in>set (gamma_q (g\<lparr>gamma_q := ?q\<rparr>)). changed (nodes (g\<lparr>gamma_q := ?q\<rparr>) ! n) \<longrightarrow>
          potential (nodes (g\<lparr>gamma_q := ?q\<rparr>) ! n) - p0 n \<le> upd_gamma x"
      using dijkstra_invD(3) [OF dj _ sub] by simp
    show "\<forall>x\<in>set (gamma_q (g\<lparr>gamma_q := ?q\<rparr>)).
        \<not> changed (nodes (g\<lparr>gamma_q := ?q\<rparr>) ! node_idx x) \<longrightarrow>
          gamma (nodes (g\<lparr>gamma_q := ?q\<rparr>) ! node_idx x) \<le> upd_gamma x"
      using dijkstra_invD(4) [OF dj sub] by simp
    show "\<forall>t<length (nodes (g\<lparr>gamma_q := ?q\<rparr>)).
        \<not> changed (nodes (g\<lparr>gamma_q := ?q\<rparr>) ! t) \<and> gamma (nodes (g\<lparr>gamma_q := ?q\<rparr>) ! t) < 0 \<longrightarrow>
          \<lparr>node_idx = t, upd_gamma = gamma (nodes (g\<lparr>gamma_q := ?q\<rparr>) ! t)\<rparr>
            \<in> set (gamma_q (g\<lparr>gamma_q := ?q\<rparr>))"
      using D5 by simp
    show "\<forall>x\<in>set (gamma_q (g\<lparr>gamma_q := ?q\<rparr>)).
        upd_gamma (hd (gamma_q (g\<lparr>gamma_q := ?q\<rparr>))) \<le> upd_gamma x"
      using head_least_pq_pop [of tie "gamma_q g"] by simp
  qed (use dj in \<open>simp_all add: dijkstra_inv_def split del: if_split cong: if_cong\<close>)
qed

lemma visit_total:
  assumes sc: "scratch_inv es g" and dj: "dijkstra_inv es p0 g"
    and ne: "gamma_q g \<noteq> []" and s_def: "s = node_idx (hd (gamma_q g))"
    and unch: "\<not> changed (nodes g ! s)"
  shows "\<exists>g'. visit ndebug es s g = Some g'"
proof -
  from ne have top: "hd (gamma_q g) \<in> set (gamma_q g)" by simp
  from scratch_invD(5) [OF sc top] have s: "s < length (nodes g)" by (simp add: s_def)
  from top_gamma [OF sc dj ne] unch
  have a: "gamma (nodes g ! s) = upd_gamma (pq_top (gamma_q g))"
    by (simp add: s_def pq_top_def)
  have "\<forall>st \<in> set (outgoing (nodes g ! s)).
      st < length es \<and> to_node (es ! st) < length (nodes (mark_changed s g))"
    using wf_graphD [OF scratch_invD(1) [OF sc] s] by simp
  from relax_out_total [OF this] a show ?thesis by (simp add: visit_def)
qed

lemma relax_dijkstra:
  "scratch_inv es g \<Longrightarrow> dijkstra_inv es p0 g \<Longrightarrow> range_inv es p0 lo g \<Longrightarrow>
   \<exists>g'. relax ndebug tie es u g = Some g' \<and> scratch_inv es g' \<and> dijkstra_inv es p0 g' \<and>
        range_inv es p0 lo g'"
proof (induction ndebug tie es u g rule: relax.induct)
  case (1 ndebug tie es u g)
  note sc = "1.prems"(1) and dj = "1.prems"(2) and rg = "1.prems"(3)
  show ?case
  proof (cases "gamma_q g \<noteq> [] \<and> gamma (nodes g ! u) = 0")
    case False
    then have "relax ndebug tie es u g = Some g" by (subst relax.simps) auto
    with sc dj rg show ?thesis by simp
  next
    case True
    define s where "s = node_idx (pq_top (gamma_q g))"
    then have s_hd: "s = node_idx (hd (gamma_q g))" by (simp add: pq_top_def)
    from True have ne: "gamma_q g \<noteq> []" by simp
    then have top: "hd (gamma_q g) \<in> set (gamma_q g)" by simp
    from scratch_invD(5) [OF sc top] have s_len: "s < length (nodes g)" by (simp add: s_hd)
    then have a: "\<not> length (nodes g) \<le> s" by simp
    show ?thesis
    proof (cases "changed (nodes g ! s)")
      case chg: True
      then have b: "\<not> \<not> changed (nodes g ! s)" by simp
      have dj': "dijkstra_inv es p0 (g\<lparr>gamma_q := pq_pop tie (gamma_q g)\<rparr>)"
        using dj ne chg unfolding s_hd by (rule dijkstra_inv_pop)
      from "1.IH"(2) [OF True s_def a b scratch_inv_pop [OF sc] dj' range_inv_pop [OF rg]]
      obtain g' where
        "relax ndebug tie es u (g\<lparr>gamma_q := pq_pop tie (gamma_q g)\<rparr>) = Some g'"
        "scratch_inv es g'" "dijkstra_inv es p0 g'" "range_inv es p0 lo g'" by blast
      moreover have "relax ndebug tie es u g
          = relax ndebug tie es u (g\<lparr>gamma_q := pq_pop tie (gamma_q g)\<rparr>)"
        using True s_len chg by (subst relax.simps) (simp add: s_def)
      ultimately show ?thesis by simp
    next
      case unch: False
      from visit_total [OF sc dj ne s_hd unch] obtain g1 where
        vis: "visit ndebug es s g = Some g1" by blast
      have sc1: "scratch_inv es g1" using sc s_len unch vis by (rule scratch_inv_visit)
      note ex = visit_exact [OF sc dj rg ne s_hd unch]
      from dijkstra_inv_visit [OF sc dj ne s_hd unch vis ex]
      have dj1: "dijkstra_inv es p0 g1" and hd1: "gamma_q g1 \<noteq> []" "hd (gamma_q g1) = hd (gamma_q g)"
        by simp_all
      have rg1: "range_inv es p0 lo g1"
        using sc dj rg ne s_hd unch vis by (rule range_inv_visit)
      from visit_relax_out [OF vis] have "changed (nodes g1 ! s)"
        by (simp add: relax_out_frame mark_changed_nth [OF s_len])
      then have "changed (nodes g1 ! node_idx (hd (gamma_q g1)))" by (simp add: hd1 s_hd)
      with dj1 hd1(1) have dj': "dijkstra_inv es p0 (g1\<lparr>gamma_q := pq_pop tie (gamma_q g1)\<rparr>)"
        by (rule dijkstra_inv_pop)
      from "1.IH"(1) [OF True s_def a unch vis scratch_inv_pop [OF sc1] dj' range_inv_pop [OF rg1]]
      obtain g' where
        "relax ndebug tie es u (g1\<lparr>gamma_q := pq_pop tie (gamma_q g1)\<rparr>) = Some g'"
        "scratch_inv es g'" "dijkstra_inv es p0 g'" "range_inv es p0 lo g'" by blast
      moreover have "relax ndebug tie es u g
          = relax ndebug tie es u (g1\<lparr>gamma_q := pq_pop tie (gamma_q g1)\<rparr>)"
        using True s_len unch vis by (subst relax.simps) (simp add: s_def)
      ultimately show ?thesis by simp
    qed
  qed
qed

subsection \<open>The clean-up\<close>

lemma drain_gamma_spec:
  "\<forall>x \<in> set (gamma_q g). node_idx x < length (nodes g) \<Longrightarrow>
   \<exists>g'. drain_gamma tie g = Some g' \<and> gamma_q g' = [] \<and> changed_l g' = changed_l g \<and>
        length (nodes g') = length (nodes g) \<and>
        (\<forall>n < length (nodes g).
           outgoing (nodes g' ! n) = outgoing (nodes g ! n) \<and>
           potential (nodes g' ! n) = potential (nodes g ! n) \<and>
           changed (nodes g' ! n) = changed (nodes g ! n) \<and>
           gamma (nodes g' ! n)
             = (if n \<in> node_idx ` set (gamma_q g) then 0 else gamma (nodes g ! n)))"
proof (induction tie g rule: drain_gamma.induct)
  case (1 tie g)
  show ?case
  proof (cases "gamma_q g = []")
    case True
    then show ?thesis by (simp add: drain_gamma_empty)
  next
    case False
    define i where "i = node_idx (pq_top (gamma_q g))"
    let ?g1 = "g\<lparr>nodes := (nodes g)[i := (nodes g ! i)\<lparr>gamma := 0\<rparr>],
                  gamma_q := pq_pop tie (gamma_q g)\<rparr>"
    from False have top: "hd (gamma_q g) \<in> set (gamma_q g)" by simp
    with "1.prems" have i: "i < length (nodes g)" by (simp add: i_def pq_top_def)
    then have a: "\<not> length (nodes g) \<le> i" by simp
    from False have q: "set (gamma_q g) = insert (hd (gamma_q g)) (set (pq_pop tie (gamma_q g)))"
      by (cases "gamma_q g") (simp_all add: set_pq_pop)
    then have img: "node_idx ` set (gamma_q g)
        = insert i (node_idx ` set (pq_pop tie (gamma_q g)))"
      by (simp add: i_def pq_top_def)
    have "\<forall>x \<in> set (gamma_q ?g1). node_idx x < length (nodes ?g1)"
      using "1.prems" q by auto
    from "1.IH" [OF False i_def a this] obtain g' where g':
      "drain_gamma tie ?g1 = Some g'" "gamma_q g' = []" "changed_l g' = changed_l g"
      "length (nodes g') = length (nodes g)"
      "\<forall>n < length (nodes g).
           outgoing (nodes g' ! n) = outgoing (nodes ?g1 ! n) \<and>
           potential (nodes g' ! n) = potential (nodes ?g1 ! n) \<and>
           changed (nodes g' ! n) = changed (nodes ?g1 ! n) \<and>
           gamma (nodes g' ! n)
             = (if n \<in> node_idx ` set (pq_pop tie (gamma_q g)) then 0 else gamma (nodes ?g1 ! n))"
      by auto
    have "drain_gamma tie g = drain_gamma tie ?g1"
      using False i by (subst drain_gamma.simps) (simp add: i_def Let_def)
    moreover have "\<forall>n < length (nodes g).
           outgoing (nodes g' ! n) = outgoing (nodes g ! n) \<and>
           potential (nodes g' ! n) = potential (nodes g ! n) \<and>
           changed (nodes g' ! n) = changed (nodes g ! n) \<and>
           gamma (nodes g' ! n)
             = (if n \<in> node_idx ` set (gamma_q g) then 0 else gamma (nodes g ! n))"
      using g'(5) i unfolding img by (auto simp: nth_list_update)
    ultimately show ?thesis using g'(1-4) by simp
  qed
qed

lemma clear_changed_spec:
  "\<forall>x \<in> set xs. x < length ns \<Longrightarrow>
   \<exists>ns'. clear_changed xs ns = Some ns' \<and> length ns' = length ns \<and>
        (\<forall>n < length ns.
           outgoing (ns' ! n) = outgoing (ns ! n) \<and>
           potential (ns' ! n) = potential (ns ! n) \<and>
           gamma (ns' ! n) = gamma (ns ! n) \<and>
           (changed (ns' ! n) \<longleftrightarrow> changed (ns ! n) \<and> n \<notin> set xs))"
proof (induction xs arbitrary: ns)
  case Nil
  then show ?case by simp
next
  case (Cons x xs)
  let ?ns = "ns[x := (ns ! x)\<lparr>changed := False\<rparr>]"
  from Cons.prems have x: "x < length ns" and "\<forall>y \<in> set xs. y < length ?ns" by simp_all
  from Cons.IH [OF this(2)] obtain ns' where ns':
    "clear_changed xs ?ns = Some ns'" "length ns' = length ns"
    "\<forall>n < length ns.
           outgoing (ns' ! n) = outgoing (?ns ! n) \<and>
           potential (ns' ! n) = potential (?ns ! n) \<and>
           gamma (ns' ! n) = gamma (?ns ! n) \<and>
           (changed (ns' ! n) \<longleftrightarrow> changed (?ns ! n) \<and> n \<notin> set xs)"
    by auto
  have "\<forall>n < length ns.
           outgoing (ns' ! n) = outgoing (ns ! n) \<and>
           potential (ns' ! n) = potential (ns ! n) \<and>
           gamma (ns' ! n) = gamma (ns ! n) \<and>
           (changed (ns' ! n) \<longleftrightarrow> changed (ns ! n) \<and> n \<notin> set (x # xs))"
    using ns'(3) x by (auto simp: nth_list_update)
  with ns'(1,2) x show ?case by simp
qed

lemma reset_scratch_clean:
  assumes v: "v < length (nodes g)"
    and q: "\<forall>x \<in> set (gamma_q g). node_idx x < length (nodes g)"
    and c: "\<forall>x \<in> set (changed_l g). x < length (nodes g)"
    and ch: "\<forall>n < length (nodes g). changed (nodes g ! n) \<longrightarrow> n \<in> set (changed_l g)"
    and ga: "\<forall>n < length (nodes g). gamma (nodes g ! n) \<noteq> 0
               \<longrightarrow> n = v \<or> n \<in> node_idx ` set (gamma_q g)"
  shows "\<exists>g'. reset_scratch tie v g = Some g' \<and> clean g' \<and>
           length (nodes g') = length (nodes g) \<and>
           (\<forall>n < length (nodes g).
              outgoing (nodes g' ! n) = outgoing (nodes g ! n) \<and>
              potential (nodes g' ! n) = potential (nodes g ! n))"
proof -
  let ?g0 = "g\<lparr>nodes := (nodes g)[v := (nodes g ! v)\<lparr>gamma := 0\<rparr>]\<rparr>"
  from q have "\<forall>x \<in> set (gamma_q ?g0). node_idx x < length (nodes ?g0)" by simp
  from drain_gamma_spec [OF this, of tie] obtain g1 where g1:
    "drain_gamma tie ?g0 = Some g1" "gamma_q g1 = []" "changed_l g1 = changed_l g"
    "length (nodes g1) = length (nodes g)"
    "\<forall>n < length (nodes g).
           outgoing (nodes g1 ! n) = outgoing (nodes ?g0 ! n) \<and>
           potential (nodes g1 ! n) = potential (nodes ?g0 ! n) \<and>
           changed (nodes g1 ! n) = changed (nodes ?g0 ! n) \<and>
           gamma (nodes g1 ! n)
             = (if n \<in> node_idx ` set (gamma_q g) then 0 else gamma (nodes ?g0 ! n))"
    by auto
  from c g1(3,4) have "\<forall>x \<in> set (changed_l g1). x < length (nodes g1)" by simp
  from clear_changed_spec [OF this] obtain ns where ns:
    "clear_changed (changed_l g1) (nodes g1) = Some ns" "length ns = length (nodes g)"
    "\<forall>n < length (nodes g).
           outgoing (ns ! n) = outgoing (nodes g1 ! n) \<and>
           potential (ns ! n) = potential (nodes g1 ! n) \<and>
           gamma (ns ! n) = gamma (nodes g1 ! n) \<and>
           (changed (ns ! n) \<longleftrightarrow> changed (nodes g1 ! n) \<and> n \<notin> set (changed_l g))"
    using g1(3,4) by auto
  let ?g' = "g1\<lparr>nodes := ns, changed_l := []\<rparr>"
  have r: "reset_scratch tie v g = Some ?g'"
    by (simp add: reset_scratch_def g1(1) ns(1))
  have fld: "outgoing (ns ! n) = outgoing (nodes g ! n) \<and>
      potential (ns ! n) = potential (nodes g ! n) \<and>
      gamma (ns ! n) = 0 \<and> \<not> changed (ns ! n)" if n: "n < length (nodes g)" for n
  proof -
    from ns(3) g1(5) n have 1: "outgoing (ns ! n) = outgoing (nodes ?g0 ! n)"
      "potential (ns ! n) = potential (nodes ?g0 ! n)"
      "gamma (ns ! n) = (if n \<in> node_idx ` set (gamma_q g) then 0 else gamma (nodes ?g0 ! n))"
      "changed (ns ! n) \<longleftrightarrow> changed (nodes ?g0 ! n) \<and> n \<notin> set (changed_l g)"
      by simp_all
    from 1(1,2) n v have "outgoing (ns ! n) = outgoing (nodes g ! n)"
      "potential (ns ! n) = potential (nodes g ! n)"
      by (simp_all add: nth_list_update)
    moreover from 1(3) ga n v have "gamma (ns ! n) = 0"
      by (auto simp: nth_list_update)
    moreover from 1(4) ch n v have "\<not> changed (ns ! n)"
      by (auto simp: nth_list_update)
    ultimately show ?thesis by simp
  qed
  have "clean ?g'"
    unfolding clean_def using g1(2) fld ns(2) by (auto simp: in_set_conv_nth)
  with r fld ns(2) show ?thesis by simp
qed

subsection \<open>The state before the loop: feasible and within bounds\<close>

lemma active_edges_iff:
  "x \<in> set (active_edges g) \<longleftrightarrow> (\<exists>a < length (nodes g). x \<in> set (outgoing (nodes g ! a)))"
proof -
  have "x \<in> set (active_edges g) \<longleftrightarrow> (\<exists>n \<in> set (nodes g). x \<in> set (outgoing n))"
    by (auto simp: active_edges_def)
  also have "\<dots> \<longleftrightarrow> (\<exists>a < length (nodes g). x \<in> set (outgoing (nodes g ! a)))"
    by (metis in_set_conv_nth)
  finally show ?thesis .
qed

lemma in_boundsD:
  assumes "in_bounds es g e"
  shows "\<And>x. x \<in> set (active_edges g) \<Longrightarrow>
           small (weight (es ! x)) \<and> small (potential (nodes g ! from_node (es ! x))) \<and>
           small (potential (nodes g ! to_node (es ! x)))"
    and "small (weight (es ! e))"
    and "\<And>n. n = from_node (es ! e) \<or> n = to_node (es ! e) \<Longrightarrow> n < length (nodes g) \<Longrightarrow>
           potential (nodes g ! n) = undefined_potential \<or> small (potential (nodes g ! n))"
  using assms unfolding in_bounds_def by auto

lemma small_defined: "small x \<Longrightarrow> x \<noteq> undefined_potential"
  by (auto simp: small_def undefined_potential_def)

lemma small_0 [simp]: "small 0"
  by (simp add: small_def)

lemma prepared_old:
  assumes "n < length (nodes g)" and "potential (nodes g ! n) \<noteq> undefined_potential"
  shows "potential (prepared es g e ! n) = potential (nodes g ! n)"
proof -
  from assms(1) have "n < length (prepared es g e)" by (simp add: length_prepared)
  from prepared_potential [OF this] assms show ?thesis by (simp add: Let_def)
qed

lemma prepared_endpoint:
  assumes b: "in_bounds es g e" and n: "n = from_node (es ! e) \<or> n = to_node (es ! e)"
  shows "small (potential (prepared es g e ! n))"
proof -
  from n have len: "n < length (prepared es g e)" by (auto simp: length_prepared)
  show ?thesis
  proof (cases "n < length (nodes g)")
    case True
    from in_boundsD(3) [OF b n True] prepared_potential [OF len] n True show ?thesis
      by (auto simp: Let_def)
  next
    case False
    with prepared_potential [OF len] n show ?thesis by (auto simp: Let_def)
  qed
qed

lemma start_edge_old_edges:
  assumes q: "quiescent es g" and b: "in_bounds es g e"
    and a: "a < length (nodes (start_edge es g e))"
    and x: "x \<in> set (outgoing (nodes (start_edge es g e) ! a))"
  shows "a < length (nodes g)" and "x \<in> set (outgoing (nodes g ! a))"
    and "0 \<le> potential (nodes (start_edge es g e) ! a) + weight (es ! x)
             - potential (nodes (start_edge es g e) ! to_node (es ! x))"
    and "small (potential (nodes (start_edge es g e) ! a)) \<and>
         small (potential (nodes (start_edge es g e) ! to_node (es ! x))) \<and>
         small (weight (es ! x))"
proof -
  from q have wf: "wf_graph es g" and fe: "feasible es g"
    by (simp_all add: quiescent_def)
  from a have a': "a < length (prepared es g e)" by (simp add: start_edge_fields)
  from x have "x \<in> set (if a < length (nodes g) then outgoing (nodes g ! a) else [])"
    by (simp only: start_edge_fields(3) prepared_fields(1) [OF a'])
  then show 1: "a < length (nodes g)" and 2: "x \<in> set (outgoing (nodes g ! a))"
    by (auto split: if_splits)
  from wf_graphD [OF wf 1 2] have w: "from_node (es ! x) = a" "to_node (es ! x) < length (nodes g)"
    by simp_all
  from 1 2 have act: "x \<in> set (active_edges g)" by (auto simp: active_edges_iff)
  from in_boundsD(1) [OF b act] w(1)
  have sm: "small (weight (es ! x))" "small (potential (nodes g ! a))"
    "small (potential (nodes g ! to_node (es ! x)))"
    by simp_all
  from prepared_old [OF 1 small_defined [OF sm(2)]] prepared_old [OF w(2) small_defined [OF sm(3)]]
  have eq: "potential (nodes (start_edge es g e) ! a) = potential (nodes g ! a)"
    "potential (nodes (start_edge es g e) ! to_node (es ! x))
       = potential (nodes g ! to_node (es ! x))"
    by (simp_all add: start_edge_fields)
  from fe act w(1)
  have "0 \<le> potential (nodes g ! a) + weight (es ! x) - potential (nodes g ! to_node (es ! x))"
    by (auto simp: feasible_def reduced_weight_def)
  then show "0 \<le> potential (nodes (start_edge es g e) ! a) + weight (es ! x)
             - potential (nodes (start_edge es g e) ! to_node (es ! x))"
    by (simp add: eq)
  from sm show "small (potential (nodes (start_edge es g e) ! a)) \<and>
         small (potential (nodes (start_edge es g e) ! to_node (es ! x))) \<and>
         small (weight (es ! x))"
    by (simp add: eq)
qed

text \<open>Within bounds the gamma of the target of the new edge is computed exactly.\<close>

lemma start_edge_exact:
  assumes b: "in_bounds es g e"
  shows "gamma (nodes (start_edge es g e) ! to_node (es ! e))
           = potential (nodes (start_edge es g e) ! from_node (es ! e)) + weight (es ! e)
             - potential (nodes (start_edge es g e) ! to_node (es ! e))"
    and "- 805306368 \<le> gamma (nodes (start_edge es g e) ! to_node (es ! e))"
    and "small (potential (nodes (start_edge es g e) ! from_node (es ! e)))"
    and "small (potential (nodes (start_edge es g e) ! to_node (es ! e)))"
proof -
  let ?pu = "potential (prepared es g e ! from_node (es ! e))"
    and ?pv = "potential (prepared es g e ! to_node (es ! e))"
  from prepared_endpoint [OF b] have sm: "small ?pu" "small ?pv" by simp_all
  note w = in_boundsD(2) [OF b]
  from sm w have "- 2147483648 \<le> ?pu + weight (es ! e) - ?pv"
    "?pu + weight (es ! e) - ?pv < 2147483648" "- 805306368 \<le> ?pu + weight (es ! e) - ?pv"
    by (simp_all add: small_def)
  with diff32_exact [OF this(1,2)]
  show "gamma (nodes (start_edge es g e) ! to_node (es ! e))
           = potential (nodes (start_edge es g e) ! from_node (es ! e)) + weight (es ! e)
             - potential (nodes (start_edge es g e) ! to_node (es ! e))"
    and "- 805306368 \<le> gamma (nodes (start_edge es g e) ! to_node (es ! e))"
    by (simp_all add: start_edge_fields)
  from sm show "small (potential (nodes (start_edge es g e) ! from_node (es ! e)))"
    and "small (potential (nodes (start_edge es g e) ! to_node (es ! e)))"
    by (simp_all add: start_edge_fields)
qed

lemma start_edge_dijkstra:
  assumes q: "quiescent es g" and b: "in_bounds es g e"
    and neg: "gamma (nodes (start_edge es g e) ! to_node (es ! e)) < 0"
  shows "dijkstra_inv es (\<lambda>n. potential (nodes (start_edge es g e) ! n)) (start_edge es g e)"
proof -
  let ?g = "start_edge es g e" and ?v = "to_node (es ! e)"
  from q have cl: "clean g" by (simp add: quiescent_def)
  from cl have qu: "gamma_q ?g = [\<lparr>node_idx = ?v, upd_gamma = gamma (nodes ?g ! ?v)\<rparr>]"
    using start_edge_pushed [OF neg] by (simp add: clean_def pq_push_def)
  have un: "\<forall>n < length (nodes ?g). \<not> changed (nodes ?g ! n)"
    using start_edge_unchanged(1) [OF cl] by simp
  have g0: "\<forall>n < length (nodes ?g). n \<noteq> ?v \<longrightarrow> gamma (nodes ?g ! n) = 0"
    using start_edge_unchanged(2) [OF cl] by simp
  have d7: "\<forall>a < length (nodes ?g). \<forall>x \<in> set (outgoing (nodes ?g ! a)).
      0 \<le> potential (nodes ?g ! a) + weight (es ! x) - potential (nodes ?g ! to_node (es ! x))"
    using start_edge_old_edges(3) [OF q b] by blast
  have d5: "\<forall>t < length (nodes ?g). \<not> changed (nodes ?g ! t) \<and> gamma (nodes ?g ! t) < 0
      \<longrightarrow> \<lparr>node_idx = t, upd_gamma = gamma (nodes ?g ! t)\<rparr> \<in> set (gamma_q ?g)"
  proof (intro allI impI)
    fix t assume "t < length (nodes ?g)" "\<not> changed (nodes ?g ! t) \<and> gamma (nodes ?g ! t) < 0"
    with g0 have "t = ?v" by auto
    then show "\<lparr>node_idx = t, upd_gamma = gamma (nodes ?g ! t)\<rparr> \<in> set (gamma_q ?g)"
      by (simp add: qu)
  qed
  show ?thesis
    unfolding dijkstra_inv_def
  proof (intro conjI)
    show "\<forall>t < length (nodes ?g). \<not> changed (nodes ?g ! t) \<and> gamma (nodes ?g ! t) < 0
      \<longrightarrow> \<lparr>node_idx = t, upd_gamma = gamma (nodes ?g ! t)\<rparr> \<in> set (gamma_q ?g)"
      by (rule d5)
    show "\<forall>a < length (nodes ?g). \<forall>x \<in> set (outgoing (nodes ?g ! a)).
      0 \<le> potential (nodes ?g ! a) + weight (es ! x) - potential (nodes ?g ! to_node (es ! x))"
      by (rule d7)
  qed (use un in \<open>simp_all add: qu\<close>)
qed

lemma start_edge_range:
  assumes q: "quiescent es g" and b: "in_bounds es g e"
    and neg: "gamma (nodes (start_edge es g e) ! to_node (es ! e)) < 0"
  shows "range_inv es (\<lambda>n. potential (nodes (start_edge es g e) ! n))
           (gamma (nodes (start_edge es g e) ! to_node (es ! e))) (start_edge es g e)"
proof -
  let ?g = "start_edge es g e" and ?v = "to_node (es ! e)"
  from q have cl: "clean g" by (simp add: quiescent_def)
  from cl have qu: "gamma_q ?g = [\<lparr>node_idx = ?v, upd_gamma = gamma (nodes ?g ! ?v)\<rparr>]"
    using start_edge_pushed [OF neg] by (simp add: clean_def pq_push_def)
  have g0: "gamma (nodes ?g ! ?v) \<le> gamma (nodes ?g ! n)" if "n < length (nodes ?g)" for n
    using start_edge_unchanged(2) [OF cl that] neg by (cases "n = ?v") simp_all
  have r4: "\<forall>a < length (nodes ?g). \<forall>x \<in> set (outgoing (nodes ?g ! a)).
      small (potential (nodes ?g ! a)) \<and> small (potential (nodes ?g ! to_node (es ! x))) \<and>
      small (weight (es ! x))"
    using start_edge_old_edges(4) [OF q b] by blast
  show ?thesis
    unfolding range_inv_def
    using start_edge_exact(2,4) [OF b] neg g0 r4 by (simp add: qu)
qed

subsection \<open>The state after the loop\<close>

lemma loop_done:
  assumes q: "quiescent es g" and b: "in_bounds es g e" and e: "e < length es"
  obtains g2 where
    "relax ndebug tie es (from_node (es ! e)) (start_edge es g e) = Some g2"
    "length (nodes g2) = length (prepared es g e)"
    "\<And>n. outgoing (nodes g2 ! n) = outgoing (prepared es g e ! n)"
    "\<forall>n < length (nodes g2). potential (nodes g2 ! n) \<le> potential (prepared es g e ! n)"
    "\<forall>n < length (nodes g2).
        potential (prepared es g e ! n) - 805306368 \<le> potential (nodes g2 ! n)"
    "\<forall>x \<in> set (gamma_q g2). node_idx x < length (nodes g2)"
    "\<forall>x \<in> set (changed_l g2). x < length (nodes g2)"
    "\<forall>n < length (nodes g2). changed (nodes g2 ! n) \<longrightarrow> n \<in> set (changed_l g2)"
    "\<forall>n < length (nodes g2). gamma (nodes g2 ! n) \<noteq> 0
        \<longrightarrow> n = to_node (es ! e) \<or> n \<in> node_idx ` set (gamma_q g2)"
    "gamma (nodes g2 ! from_node (es ! e)) < 0
       \<Longrightarrow> \<exists>cyc. neg_cycle_of es g2 (to_node (es ! e)) = Some cyc \<and> cyc \<noteq> []"
    "\<not> gamma (nodes g2 ! from_node (es ! e)) < 0
       \<Longrightarrow> (\<forall>a < length (nodes g2). \<forall>x \<in> set (outgoing (nodes g2 ! a)).
              0 \<le> potential (nodes g2 ! a) + weight (es ! x)
                   - potential (nodes g2 ! to_node (es ! x))) \<and>
           0 \<le> potential (nodes g2 ! from_node (es ! e)) + weight (es ! e)
                - potential (nodes g2 ! to_node (es ! e))"
proof -
  let ?g1 = "start_edge es g e" and ?u = "from_node (es ! e)" and ?v = "to_node (es ! e)"
  from q have wf: "wf_graph es g" and cl: "clean g" by (simp_all add: quiescent_def)
  have u: "?u < length (nodes ?g1)" and v: "?v < length (nodes ?g1)"
    by (simp_all add: start_edge_fields length_prepared)
  have c1: "changed_l ?g1 = []" using cl by (simp add: start_edge_fields clean_def)
  have old: "\<forall>a < length (nodes ?g1). \<forall>x \<in> set (outgoing (nodes ?g1 ! a)).
      0 \<le> potential (nodes ?g1 ! a) + weight (es ! x) - potential (nodes ?g1 ! to_node (es ! x))"
    using start_edge_old_edges(3) [OF q b] by blast
  have tgt: "gamma (nodes ?g1 ! ?v)
      = potential (nodes ?g1 ! ?u) + weight (es ! e) - potential (nodes ?g1 ! ?v)"
    by (rule start_edge_exact(1) [OF b])
  show ?thesis
  proof (cases "gamma (nodes ?g1 ! ?v) < 0 \<and> ?u \<noteq> ?v")
    case False
    have r: "relax ndebug tie es ?u ?g1 = Some ?g1"
    proof (cases "gamma (nodes ?g1 ! ?v) < 0")
      case True
      with False show ?thesis by (simp add: relax_stop)
    next
      case False
      from cl start_edge_not_pushed [OF False] have "gamma_q ?g1 = []" by (simp add: clean_def)
      then show ?thesis by (simp add: relax_stop)
    qed
    have qb: "\<forall>x \<in> set (gamma_q ?g1). node_idx x = ?v"
    proof (cases "gamma (nodes ?g1 ! ?v) < 0")
      case True
      from cl start_edge_pushed [OF True] show ?thesis by (simp add: clean_def pq_push_def)
    next
      case False
      from cl start_edge_not_pushed [OF False] show ?thesis by (simp add: clean_def)
    qed
    have cy: "\<exists>cyc. neg_cycle_of es ?g1 ?v = Some cyc \<and> cyc \<noteq> []"
      if n: "gamma (nodes ?g1 ! ?u) < 0"
    proof -
      from n start_edge_unchanged(2) [OF cl u] have uv: "?u = ?v" by auto
      with n have "gamma (nodes ?g1 ! ?v) < 0" by simp
      from start_edge_pushed [OF this] have "last_edge (nodes ?g1 ! ?v) = e" by simp
      with e uv have "neg_cycle_of es ?g1 ?v = Some [e]"
        by (simp add: neg_cycle_of_def Let_def gather_cycle_done)
      then show ?thesis by simp
    qed
    have fe: "0 \<le> potential (nodes ?g1 ! ?u) + weight (es ! e) - potential (nodes ?g1 ! ?v)"
      if n: "\<not> gamma (nodes ?g1 ! ?u) < 0"
    proof (cases "?u = ?v")
      case True
      with n tgt show ?thesis by simp
    next
      case ne: False
      with False tgt show ?thesis by simp
    qed
    show ?thesis
    proof (rule that [of ?g1])
      show "relax ndebug tie es ?u ?g1 = Some ?g1" by (rule r)
      show "length (nodes ?g1) = length (prepared es g e)" by (simp add: start_edge_fields)
      show "\<And>n. outgoing (nodes ?g1 ! n) = outgoing (prepared es g e ! n)"
        by (simp add: start_edge_fields)
      show "\<forall>n < length (nodes ?g1). potential (nodes ?g1 ! n) \<le> potential (prepared es g e ! n)"
        by (simp add: start_edge_fields)
      show "\<forall>n < length (nodes ?g1).
          potential (prepared es g e ! n) - 805306368 \<le> potential (nodes ?g1 ! n)"
        by (simp add: start_edge_fields)
      show "\<forall>x \<in> set (gamma_q ?g1). node_idx x < length (nodes ?g1)" using qb v by simp
      show "\<forall>x \<in> set (changed_l ?g1). x < length (nodes ?g1)" by (simp add: c1)
      show "\<forall>n < length (nodes ?g1). changed (nodes ?g1 ! n) \<longrightarrow> n \<in> set (changed_l ?g1)"
        using start_edge_unchanged(1) [OF cl] by simp
      show "\<forall>n < length (nodes ?g1). gamma (nodes ?g1 ! n) \<noteq> 0
          \<longrightarrow> n = ?v \<or> n \<in> node_idx ` set (gamma_q ?g1)"
        using start_edge_unchanged(2) [OF cl] by blast
      show "gamma (nodes ?g1 ! ?u) < 0
         \<Longrightarrow> \<exists>cyc. neg_cycle_of es ?g1 ?v = Some cyc \<and> cyc \<noteq> []"
        by (rule cy)
      show "\<not> gamma (nodes ?g1 ! ?u) < 0
         \<Longrightarrow> (\<forall>a < length (nodes ?g1). \<forall>x \<in> set (outgoing (nodes ?g1 ! a)).
              0 \<le> potential (nodes ?g1 ! a) + weight (es ! x)
                   - potential (nodes ?g1 ! to_node (es ! x))) \<and>
           0 \<le> potential (nodes ?g1 ! ?u) + weight (es ! e) - potential (nodes ?g1 ! ?v)"
        using old fe by simp
    qed
  next
    case True
    then have neg: "gamma (nodes ?g1 ! ?v) < 0" and ne: "?u \<noteq> ?v" by simp_all
    let ?p0 = "\<lambda>n. potential (nodes ?g1 ! n)"
    have sc1: "scratch_inv es ?g1" using wf cl neg by (rule start_edge_scratch_inv)
    have ch1: "chain_inv es e ?g1" using cl e ne neg by (rule start_edge_chain_inv)
    have dj1: "dijkstra_inv es ?p0 ?g1" using q b neg by (rule start_edge_dijkstra)
    have rg1: "range_inv es ?p0 (gamma (nodes ?g1 ! ?v)) ?g1"
      using q b neg by (rule start_edge_range)
    from relax_dijkstra [OF sc1 dj1 rg1] obtain g2 where
      r: "relax ndebug tie es ?u ?g1 = Some g2" and sc: "scratch_inv es g2"
      and dj: "dijkstra_inv es ?p0 g2" and rg: "range_inv es ?p0 (gamma (nodes ?g1 ! ?v)) g2"
      by blast
    from relax_basic [OF r refl sc1 ch1] have ch: "chain_inv es e g2" by simp
    from relax_frame [OF r] have len: "length (nodes g2) = length (nodes ?g1)"
      and out: "\<And>n. outgoing (nodes g2 ! n) = outgoing (nodes ?g1 ! n)" by simp_all
    from ch have base: "?u < length (nodes g2)" "?v < length (nodes g2)"
      "?u \<notin> set (changed_l g2)" "last_edge (nodes g2 ! ?v) = e"
      by (simp_all add: chain_inv_def)
    have po: "potential (nodes g2 ! n) \<le> ?p0 n" if "n < length (nodes g2)" for n
      using dijkstra_invD(1,2) [OF dj that] by (cases "changed (nodes g2 ! n)") simp_all
    have pl: "?p0 n - 805306368 \<le> potential (nodes g2 ! n)" if "n < length (nodes g2)" for n
      using range_invD(4) [OF rg that] start_edge_exact(2) [OF b] by simp
    have ga: "n \<in> node_idx ` set (gamma_q g2)"
      if n: "n < length (nodes g2)" "gamma (nodes g2 ! n) \<noteq> 0" for n
    proof -
      from scratch_invD(3) [OF sc n(1)] n(2) have lt: "gamma (nodes g2 ! n) < 0" by simp
      with scratch_invD(4) [OF sc n(1)] have un: "\<not> changed (nodes g2 ! n)" by auto
      from dijkstra_invD(5) [OF dj n(1) un lt]
      have "node_idx \<lparr>node_idx = n, upd_gamma = gamma (nodes g2 ! n)\<rparr> \<in> node_idx ` set (gamma_q g2)"
        by (rule imageI)
      then show ?thesis by simp
    qed
    have fe: "(\<forall>a < length (nodes g2). \<forall>x \<in> set (outgoing (nodes g2 ! a)).
              0 \<le> potential (nodes g2 ! a) + weight (es ! x)
                   - potential (nodes g2 ! to_node (es ! x))) \<and>
           0 \<le> potential (nodes g2 ! ?u) + weight (es ! e) - potential (nodes g2 ! ?v)"
      if n: "\<not> gamma (nodes g2 ! ?u) < 0"
    proof -
      from scratch_invD(3) [OF sc base(1)] n have "gamma (nodes g2 ! ?u) = 0" by simp
      with relax_stops [OF r] have qe: "gamma_q g2 = []" by simp
      have g0: "gamma (nodes g2 ! m) = 0" if "m < length (nodes g2)" for m
        using ga [OF that] qe by auto
      have edge: "0 \<le> potential (nodes g2 ! a) + weight (es ! x)
                   - potential (nodes g2 ! to_node (es ! x))"
        if a: "a < length (nodes g2)" and x: "x \<in> set (outgoing (nodes g2 ! a))" for a x
      proof -
        from wf_graphD [OF scratch_invD(1) [OF sc] a x]
        have t: "to_node (es ! x) < length (nodes g2)" by simp
        show ?thesis
        proof (cases "changed (nodes g2 ! a)")
          case True
          from dijkstra_invD(8) [OF dj a x True] g0 [OF t] show ?thesis
            by (simp split: if_splits)
        next
          case False
          from dijkstra_invD(1) [OF dj a False]
          have "potential (nodes g2 ! a) = ?p0 a" .
          moreover from po [OF t]
          have "potential (nodes g2 ! to_node (es ! x)) \<le> ?p0 (to_node (es ! x))" .
          moreover from dijkstra_invD(7) [OF dj a x]
          have "0 \<le> ?p0 a + weight (es ! x) - ?p0 (to_node (es ! x))" .
          ultimately show ?thesis by simp
        qed
      qed
      have cl2: "changed_l g2 \<noteq> []"
      proof
        assume "changed_l g2 = []"
        with ch have "gamma (nodes g2 ! ?v) < 0" by (simp add: chain_inv_def)
        with g0 [OF base(2)] show False by simp
      qed
      then have "0 < length (changed_l g2)" by simp
      with ch have "chain_node es e g2 0" by (simp add: chain_inv_def)
      then have c0: "changed_l g2 ! 0 = ?v"
        and p0: "potential (nodes g2 ! (changed_l g2 ! 0))
          = wrap32 (potential (nodes g2 ! from_node (es ! last_edge (nodes g2 ! (changed_l g2 ! 0))))
            + weight (es ! last_edge (nodes g2 ! (changed_l g2 ! 0))))"
        by (auto simp: chain_node_def Let_def)
      from p0 have pv: "potential (nodes g2 ! ?v) = wrap32 (potential (nodes g2 ! ?u) + weight (es ! e))"
        unfolding c0 base(4) .
      from scratch_invD(2) [OF sc base(1)] base(3) have "\<not> changed (nodes g2 ! ?u)" by simp
      from dijkstra_invD(1) [OF dj base(1) this] start_edge_exact(3) [OF b]
      have "small (potential (nodes g2 ! ?u))" by simp
      with in_boundsD(2) [OF b]
      have "wrap32 (potential (nodes g2 ! ?u) + weight (es ! e))
          = potential (nodes g2 ! ?u) + weight (es ! e)"
        by (intro wrap32_id) (simp_all add: small_def)
      with pv edge show ?thesis by simp
    qed
    show ?thesis
    proof (rule that [of g2])
      show "relax ndebug tie es ?u ?g1 = Some g2" by (rule r)
      show "length (nodes g2) = length (prepared es g e)" by (simp add: len start_edge_fields)
      show "\<And>n. outgoing (nodes g2 ! n) = outgoing (prepared es g e ! n)"
        by (simp add: out start_edge_fields)
      show "\<forall>n < length (nodes g2). potential (nodes g2 ! n) \<le> potential (prepared es g e ! n)"
        using po by (simp add: start_edge_fields)
      show "\<forall>n < length (nodes g2).
          potential (prepared es g e ! n) - 805306368 \<le> potential (nodes g2 ! n)"
        using pl by (simp add: start_edge_fields)
      show "\<forall>x \<in> set (gamma_q g2). node_idx x < length (nodes g2)"
        using scratch_invD(5) [OF sc] by simp
      show "\<forall>x \<in> set (changed_l g2). x < length (nodes g2)"
        using sc by (simp add: scratch_inv_def)
      show "\<forall>n < length (nodes g2). changed (nodes g2 ! n) \<longrightarrow> n \<in> set (changed_l g2)"
        using scratch_invD(2) [OF sc] by simp
      show "\<forall>n < length (nodes g2). gamma (nodes g2 ! n) \<noteq> 0
          \<longrightarrow> n = ?v \<or> n \<in> node_idx ` set (gamma_q g2)"
        using ga by simp
      show "gamma (nodes g2 ! ?u) < 0
         \<Longrightarrow> \<exists>cyc. neg_cycle_of es g2 ?v = Some cyc \<and> cyc \<noteq> []"
        using neg_cycle_of_chain [OF sc ch] by auto
      show "\<not> gamma (nodes g2 ! ?u) < 0
         \<Longrightarrow> (\<forall>a < length (nodes g2). \<forall>x \<in> set (outgoing (nodes g2 ! a)).
              0 \<le> potential (nodes g2 ! a) + weight (es ! x)
                   - potential (nodes g2 ! to_node (es ! x))) \<and>
           0 \<le> potential (nodes g2 ! ?u) + weight (es ! e) - potential (nodes g2 ! ?v)"
        by (rule fe)
    qed
  qed
qed

subsection \<open>What a call on a graph at quiescence returns\<close>

lemma install_nth:
  "nodes (install u e g) ! n
     = (if n = u \<and> u < length (nodes g)
        then (nodes g ! u)\<lparr>outgoing := outgoing (nodes g ! u) @ [e]\<rparr> else nodes g ! n)"
proof (cases "u < length (nodes g)")
  case True
  then show ?thesis by (simp add: install_def nth_list_update)
next
  case False
  then have "(nodes g)[u := (nodes g ! u)\<lparr>outgoing := outgoing (nodes g ! u) @ [e]\<rparr>] = nodes g"
    by (simp add: list_update_beyond)
  with False show ?thesis by (simp add: install_def)
qed

lemma install_fields:
  "length (nodes (install u e g)) = length (nodes g)"
  "gamma_q (install u e g) = gamma_q g"
  "changed_l (install u e g) = changed_l g"
  "potential (nodes (install u e g) ! n) = potential (nodes g ! n)"
  "gamma (nodes (install u e g) ! n) = gamma (nodes g ! n)"
  "changed (nodes (install u e g) ! n) = changed (nodes g ! n)"
  "u < length (nodes g) \<Longrightarrow>
     outgoing (nodes (install u e g) ! n) = outgoing (nodes g ! n) @ (if n = u then [e] else [])"
proof -
  show "length (nodes (install u e g)) = length (nodes g)"
    "gamma_q (install u e g) = gamma_q g" "changed_l (install u e g) = changed_l g"
    by (simp_all add: install_def)
  show "potential (nodes (install u e g) ! n) = potential (nodes g ! n)"
    by (simp add: install_nth)
  show "gamma (nodes (install u e g) ! n) = gamma (nodes g ! n)"
    by (simp add: install_nth)
  show "changed (nodes (install u e g) ! n) = changed (nodes g ! n)"
    by (simp add: install_nth)
  show "u < length (nodes g) \<Longrightarrow>
     outgoing (nodes (install u e g) ! n) = outgoing (nodes g ! n) @ (if n = u then [e] else [])"
    by (simp add: install_nth)
qed

lemma prepared_wf:
  assumes wf: "wf_graph es g" and a: "a < length (prepared es g e)"
    and x: "x \<in> set (outgoing (prepared es g e ! a))"
  shows "x < length es \<and> from_node (es ! x) = a \<and> to_node (es ! x) < length (prepared es g e)"
proof -
  from x have "x \<in> set (if a < length (nodes g) then outgoing (nodes g ! a) else [])"
    by (simp only: prepared_fields(1) [OF a])
  then have "a < length (nodes g)" "x \<in> set (outgoing (nodes g ! a))"
    by (auto split: if_splits)
  from wf_graphD [OF wf this] show ?thesis by (auto simp: length_prepared)
qed

lemma add_edge_quiescent:
  assumes q: "quiescent es g" and b: "in_bounds es g e" and e: "e < length es"
  obtains g' cyc where "add_edge ndebug tie es g e = Some (g', cyc)"
    "clean g'" "length (nodes g') = length (prepared es g e)"
    "\<forall>n < length (nodes g'). potential (nodes g' ! n) \<le> potential (prepared es g e ! n) \<and>
        potential (prepared es g e ! n) - 805306368 \<le> potential (nodes g' ! n)"
    "cyc \<noteq> [] \<Longrightarrow>
       \<forall>n < length (nodes g'). outgoing (nodes g' ! n) = outgoing (prepared es g e ! n)"
    "cyc = [] \<Longrightarrow>
       (\<forall>n < length (nodes g'). outgoing (nodes g' ! n)
           = outgoing (prepared es g e ! n) @ (if n = from_node (es ! e) then [e] else [])) \<and>
       feasible es g'"
proof -
  let ?u = "from_node (es ! e)" and ?v = "to_node (es ! e)"
  from q have wf: "wf_graph es g" by (simp add: quiescent_def)
  have u: "?u < length (prepared es g e)" and v: "?v < length (prepared es g e)"
    by (simp_all add: length_prepared)
  from loop_done [OF q b e, of ndebug tie] obtain g2 where
    r: "relax ndebug tie es ?u (start_edge es g e) = Some g2"
    and len: "length (nodes g2) = length (prepared es g e)"
    and out: "\<And>n. outgoing (nodes g2 ! n) = outgoing (prepared es g e ! n)"
    and pot: "\<forall>n < length (nodes g2). potential (nodes g2 ! n) \<le> potential (prepared es g e ! n)"
    and plo: "\<forall>n < length (nodes g2).
        potential (prepared es g e ! n) - 805306368 \<le> potential (nodes g2 ! n)"
    and qb: "\<forall>x \<in> set (gamma_q g2). node_idx x < length (nodes g2)"
    and cb: "\<forall>x \<in> set (changed_l g2). x < length (nodes g2)"
    and ch: "\<forall>n < length (nodes g2). changed (nodes g2 ! n) \<longrightarrow> n \<in> set (changed_l g2)"
    and ga: "\<forall>n < length (nodes g2). gamma (nodes g2 ! n) \<noteq> 0
        \<longrightarrow> n = ?v \<or> n \<in> node_idx ` set (gamma_q g2)"
    and cy: "gamma (nodes g2 ! ?u) < 0
       \<Longrightarrow> \<exists>cyc. neg_cycle_of es g2 ?v = Some cyc \<and> cyc \<noteq> []"
    and fe: "\<not> gamma (nodes g2 ! ?u) < 0
       \<Longrightarrow> (\<forall>a < length (nodes g2). \<forall>x \<in> set (outgoing (nodes g2 ! a)).
              0 \<le> potential (nodes g2 ! a) + weight (es ! x)
                   - potential (nodes g2 ! to_node (es ! x))) \<and>
           0 \<le> potential (nodes g2 ! ?u) + weight (es ! e) - potential (nodes g2 ! ?v)"
    by blast
  from v len have v2: "?v < length (nodes g2)" by simp
  from u len have u2: "?u < length (nodes g2)" by simp
  show ?thesis
  proof (cases "gamma (nodes g2 ! ?u) < 0")
    case True
    from cy [OF True] obtain cyc where
      c: "neg_cycle_of es g2 ?v = Some cyc" "cyc \<noteq> []" by blast
    from reset_scratch_clean [OF v2 qb cb ch ga, of tie] obtain g' where g':
      "reset_scratch tie ?v g2 = Some g'" "clean g'" "length (nodes g') = length (nodes g2)"
      "\<forall>n < length (nodes g2).
          outgoing (nodes g' ! n) = outgoing (nodes g2 ! n) \<and>
          potential (nodes g' ! n) = potential (nodes g2 ! n)"
      by blast
    have "add_edge ndebug tie es g e = Some (g', cyc)"
      using e r True c(1) g'(1) by (simp add: add_edge_def Let_def)
    moreover have "length (nodes g') = length (prepared es g e)" using g'(3) len by simp
    moreover have "\<forall>n < length (nodes g'). potential (nodes g' ! n) \<le> potential (prepared es g e ! n) \<and>
        potential (prepared es g e ! n) - 805306368 \<le> potential (nodes g' ! n)"
      using g'(3,4) pot plo by simp
    moreover have "\<forall>n < length (nodes g'). outgoing (nodes g' ! n) = outgoing (prepared es g e ! n)"
      using g'(3,4) out by simp
    ultimately show ?thesis using g'(2) c(2) by (intro that [of g' cyc]) simp_all
  next
    case False
    let ?g3 = "install ?u e g2"
    have v3: "?v < length (nodes ?g3)" using v2 by (simp add: install_fields)
    have qb3: "\<forall>x \<in> set (gamma_q ?g3). node_idx x < length (nodes ?g3)"
      using qb by (simp add: install_fields)
    have cb3: "\<forall>x \<in> set (changed_l ?g3). x < length (nodes ?g3)"
      using cb by (simp add: install_fields)
    have ch3: "\<forall>n < length (nodes ?g3). changed (nodes ?g3 ! n) \<longrightarrow> n \<in> set (changed_l ?g3)"
      using ch by (simp add: install_fields)
    have ga3: "\<forall>n < length (nodes ?g3). gamma (nodes ?g3 ! n) \<noteq> 0
        \<longrightarrow> n = ?v \<or> n \<in> node_idx ` set (gamma_q ?g3)"
      using ga by (simp add: install_fields)
    from reset_scratch_clean [OF v3 qb3 cb3 ch3 ga3, of tie] obtain g' where g':
      "reset_scratch tie ?v ?g3 = Some g'" "clean g'" "length (nodes g') = length (nodes g2)"
      "\<forall>n < length (nodes g2).
          outgoing (nodes g' ! n) = outgoing (nodes ?g3 ! n) \<and>
          potential (nodes g' ! n) = potential (nodes g2 ! n)"
      by (auto simp: install_fields(1,4))
    have o: "outgoing (nodes g' ! n)
        = outgoing (prepared es g e ! n) @ (if n = ?u then [e] else [])"
      if "n < length (nodes g')" for n
      using that g'(3,4) install_fields(7) [OF u2, of e n] out by simp
    have p: "potential (nodes g' ! n) = potential (nodes g2 ! n)" if "n < length (nodes g2)" for n
      using that g'(4) by simp
    have ae: "add_edge ndebug tie es g e = Some (g', [])"
      using e r False g'(1) by (simp add: add_edge_def Let_def)
    have "0 \<le> reduced_weight es g' x" if x: "x \<in> set (active_edges g')" for x
    proof -
      from x obtain a where a: "a < length (nodes g')" "x \<in> set (outgoing (nodes g' ! a))"
        by (auto simp: active_edges_iff)
      from a(2) o [OF a(1)] have "x \<in> set (outgoing (prepared es g e ! a)) \<or> a = ?u \<and> x = e"
        by (auto split: if_splits)
      then show ?thesis
      proof
        assume old: "x \<in> set (outgoing (prepared es g e ! a))"
        from a(1) g'(3) len have a': "a < length (prepared es g e)" by simp
        from prepared_wf [OF wf a' old]
        have w: "from_node (es ! x) = a" "to_node (es ! x) < length (nodes g2)"
          by (simp_all add: len)
        from a(1) g'(3) have a2: "a < length (nodes g2)" by simp
        from old have "x \<in> set (outgoing (nodes g2 ! a))" by (simp add: out)
        with fe [OF False] a2
        have "0 \<le> potential (nodes g2 ! a) + weight (es ! x)
                   - potential (nodes g2 ! to_node (es ! x))" by blast
        then show ?thesis
          by (simp add: reduced_weight_def w(1) p [OF a2] p [OF w(2)])
      next
        assume "a = ?u \<and> x = e"
        with fe [OF False] show ?thesis
          by (simp add: reduced_weight_def p [OF u2] p [OF v2])
      qed
    qed
    then have "feasible es g'" by (simp add: feasible_def)
    moreover have "length (nodes g') = length (prepared es g e)" using g'(3) len by simp
    moreover have "\<forall>n < length (nodes g'). potential (nodes g' ! n) \<le> potential (prepared es g e ! n) \<and>
        potential (prepared es g e ! n) - 805306368 \<le> potential (nodes g' ! n)"
      using g'(3) p pot plo by simp
    ultimately show ?thesis using g'(2) ae o by (intro that [of g' "[]"]) simp_all
  qed
qed

lemma concat_padded:
  assumes "length ns \<le> length ns'"
    and "\<forall>n < length ns'. outgoing (ns' ! n) = (if n < length ns then outgoing (ns ! n) else [])"
  shows "concat (map outgoing ns') = concat (map outgoing ns)"
proof -
  have "map outgoing ns' = map outgoing ns @ replicate (length ns' - length ns) []"
    using assms by (intro nth_equalityI) (auto simp: nth_append)
  then show ?thesis by simp
qed

lemma graph_s1_accept:
  "add_edge False tie_first edges_s1 graph_s1 3 = Some (graph_s1_accepted, [])"
  by code_simp

lemma add_edge_quiescent_ex:
  assumes q: "quiescent es g" and b: "in_bounds es g e" and e: "e < length es"
  shows "\<exists>g' cyc. add_edge ndebug tie es g e = Some (g', cyc) \<and>
    clean g' \<and> length (nodes g') = length (prepared es g e) \<and>
    (\<forall>n < length (nodes g'). potential (nodes g' ! n) \<le> potential (prepared es g e ! n) \<and>
        potential (prepared es g e ! n) - 805306368 \<le> potential (nodes g' ! n)) \<and>
    (cyc \<noteq> [] \<longrightarrow>
       (\<forall>n < length (nodes g'). outgoing (nodes g' ! n) = outgoing (prepared es g e ! n))) \<and>
    (cyc = [] \<longrightarrow>
       (\<forall>n < length (nodes g'). outgoing (nodes g' ! n)
           = outgoing (prepared es g e ! n) @ (if n = from_node (es ! e) then [e] else [])) \<and>
       feasible es g')"
proof (rule add_edge_quiescent [OF q b e, of ndebug tie])
  fix g' cyc
  assume a: "add_edge ndebug tie es g e = Some (g', cyc)"
    "clean g'" "length (nodes g') = length (prepared es g e)"
    "\<forall>n < length (nodes g'). potential (nodes g' ! n) \<le> potential (prepared es g e ! n) \<and>
        potential (prepared es g e ! n) - 805306368 \<le> potential (nodes g' ! n)"
    "cyc \<noteq> [] \<Longrightarrow>
       \<forall>n < length (nodes g'). outgoing (nodes g' ! n) = outgoing (prepared es g e ! n)"
    "cyc = [] \<Longrightarrow>
       (\<forall>n < length (nodes g'). outgoing (nodes g' ! n)
           = outgoing (prepared es g e ! n) @ (if n = from_node (es ! e) then [e] else [])) \<and>
       feasible es g'"
  show ?thesis
  proof (intro exI conjI impI)
    show "add_edge ndebug tie es g e = Some (g', cyc)" by (rule a(1))
    show "clean g'" by (rule a(2))
    show "length (nodes g') = length (prepared es g e)" by (rule a(3))
    show "\<forall>n < length (nodes g'). potential (nodes g' ! n) \<le> potential (prepared es g e ! n) \<and>
        potential (prepared es g e ! n) - 805306368 \<le> potential (nodes g' ! n)"
      by (rule a(4))
    show "\<forall>n < length (nodes g'). outgoing (nodes g' ! n) = outgoing (prepared es g e ! n)"
      if "cyc \<noteq> []" using a(5) [OF that] .
    show "\<forall>n < length (nodes g'). outgoing (nodes g' ! n)
           = outgoing (prepared es g e ! n) @ (if n = from_node (es ! e) then [e] else [])"
      if "cyc = []" using a(6) [OF that] by simp
    show "feasible es g'" if "cyc = []" using a(6) [OF that] by simp
  qed
qed

subsection \<open>What a rejected call leaves of the adjacency\<close>

lemma drain_gamma_frame:
  "drain_gamma tie g = Some g' \<Longrightarrow>
   length (nodes g') = length (nodes g) \<and>
   (\<forall>n. outgoing (nodes g' ! n) = outgoing (nodes g ! n))"
proof (induction tie g rule: drain_gamma.induct)
  case (1 tie g)
  show ?case
  proof (cases "gamma_q g = []")
    case True
    with "1.prems" show ?thesis by (simp add: drain_gamma_empty)
  next
    case False
    define i where "i = node_idx (pq_top (gamma_q g))"
    let ?g1 = "g\<lparr>nodes := (nodes g)[i := (nodes g ! i)\<lparr>gamma := 0\<rparr>],
                  gamma_q := pq_pop tie (gamma_q g)\<rparr>"
    from "1.prems" False have i: "\<not> length (nodes g) \<le> i" and d: "drain_gamma tie ?g1 = Some g'"
      by (subst (asm) drain_gamma.simps; simp add: i_def Let_def split: if_splits)+
    have "outgoing (nodes ?g1 ! n) = outgoing (nodes g ! n)" for n
      using i by (cases "n = i") simp_all
    with "1.IH" [OF False i_def i d] show ?thesis by simp
  qed
qed

lemma clear_changed_frame:
  "clear_changed xs ns = Some ns' \<Longrightarrow>
   length ns' = length ns \<and> (\<forall>n. outgoing (ns' ! n) = outgoing (ns ! n))"
proof (induction xs arbitrary: ns)
  case Nil
  then show ?case by simp
next
  case (Cons x xs)
  let ?ns = "ns[x := (ns ! x)\<lparr>changed := False\<rparr>]"
  from Cons.prems have x: "x < length ns" and c: "clear_changed xs ?ns = Some ns'"
    by (simp_all split: if_splits)
  have "outgoing (?ns ! n) = outgoing (ns ! n)" for n
    using x by (cases "n = x") simp_all
  with Cons.IH [OF c] show ?case by simp
qed

lemma reset_scratch_frame:
  assumes "reset_scratch tie v g = Some g'"
  shows "length (nodes g') = length (nodes g)"
    and "outgoing (nodes g' ! n) = outgoing (nodes g ! n)"
proof -
  let ?g0 = "g\<lparr>nodes := (nodes g)[v := (nodes g ! v)\<lparr>gamma := 0\<rparr>]\<rparr>"
  from assms obtain g1 ns where d: "drain_gamma tie ?g0 = Some g1"
    and c: "clear_changed (changed_l g1) (nodes g1) = Some ns"
    and g': "g' = g1\<lparr>nodes := ns, changed_l := []\<rparr>"
    by (auto simp: reset_scratch_def split: option.splits)
  have o: "outgoing (nodes ?g0 ! n) = outgoing (nodes g ! n)"
    by (cases "v < length (nodes g)"; cases "n = v") (simp_all add: list_update_beyond)
  from drain_gamma_frame [OF d] clear_changed_frame [OF c] o
  show "length (nodes g') = length (nodes g)"
    and "outgoing (nodes g' ! n) = outgoing (nodes g ! n)"
    by (simp_all add: g')
qed

lemma rejected_frame:
  assumes "add_edge ndebug tie es g e = Some (g', cyc)" and "cyc \<noteq> []"
  shows "length (nodes g') = length (prepared es g e) \<and>
         (\<forall>n. outgoing (nodes g' ! n) = outgoing (prepared es g e ! n))"
  using assms(1)
proof (cases rule: add_edge_cases)
  case (added g2)
  with assms(2) show ?thesis by simp
next
  case (cycle g2)
  note rf = relax_frame [OF cycle(2)] and sf = reset_scratch_frame [OF cycle(5)]
  from rf sf show ?thesis by (simp add: start_edge_fields)
qed

subsection \<open>Scratch state, frame and feasibility after a call\<close>


lemma graph_s1_bounds: "in_bounds edges_s1 graph_s1 2" "in_bounds edges_s1 graph_s1 3"
  by code_simp+



text \<open>
  Nor is the scratch state clean after a call that follows a rejected edge without a
  \<open>reset\<close>: the state left by the rejected third edge of scenario S1 is not feasible, and
  the call for the fourth edge on it returns with the gamma of node \<open>c\<close> still at \<open>-2\<close>.
\<close>

lemma call_after_rejected_edge:
  "\<not> feasible edges_s1 graph_s1_rejected \<and>
   add_edge False tie_first edges_s1 graph_s1_rejected 3 = Some (graph_s1_dirty, []) \<and>
   map gamma (nodes graph_s1_dirty) = [0, 0, - 2, 0]"
  by code_simp

text \<open>
  C1, as amended.  If \<open>add_edge\<close> returns a cycle, the edge is not added: every outgoing
  list is as before the call, and the node records created by the call have none.  The
  potentials are not restored.  If the graph was at quiescence and the call within
  bounds, the scratch state is clean again and each potential is at most what it was
  after the two endpoints were initialised.
\<close>

theorem rejected_edge_frame:
  assumes "add_edge ndebug tie es g e = Some (g', cyc)" and "cyc \<noteq> []"
  shows "active_edges g' = active_edges g \<and>
         (\<forall>n < length (nodes g). outgoing (nodes g' ! n) = outgoing (nodes g ! n)) \<and>
         (\<forall>n < length (nodes g'). length (nodes g) \<le> n \<longrightarrow> outgoing (nodes g' ! n) = []) \<and>
         length (nodes g') = length (prepared es g e) \<and>
         (quiescent es g \<and> in_bounds es g e \<longrightarrow>
            clean g' \<and>
            (\<forall>n < length (nodes g'). potential (nodes g' ! n) \<le> potential (prepared es g e ! n)))"
proof -
  from rejected_frame [OF assms]
  have fr: "length (nodes g') = length (prepared es g e)"
    "\<And>n. outgoing (nodes g' ! n) = outgoing (prepared es g e ! n)"
    by simp_all
  have o: "\<forall>n < length (nodes g').
      outgoing (nodes g' ! n) = (if n < length (nodes g) then outgoing (nodes g ! n) else [])"
    using prepared_fields(1) [of _ es g e] by (simp add: fr)
  have le: "length (nodes g) \<le> length (nodes g')" by (simp add: fr length_prepared)
  from concat_padded [OF le o] have act: "active_edges g' = active_edges g"
    by (simp add: active_edges_def)
  have "clean g' \<and>
      (\<forall>n < length (nodes g'). potential (nodes g' ! n) \<le> potential (prepared es g e ! n))"
    if q: "quiescent es g" and b: "in_bounds es g e"
  proof -
    from assms(1) have e: "e < length es" by (rule add_edge_cases)
    from add_edge_quiescent_ex [OF q b e, of ndebug tie] obtain g1 c1 where
      r: "add_edge ndebug tie es g e = Some (g1, c1)" "clean g1"
        "\<forall>n < length (nodes g1). potential (nodes g1 ! n) \<le> potential (prepared es g e ! n) \<and>
           potential (prepared es g e ! n) - 805306368 \<le> potential (nodes g1 ! n)"
      by (elim exE conjE) blast
    from r(1) assms(1) have "g1 = g'" by simp
    with r(2,3) show ?thesis by simp
  qed
  with act o le fr(1) show ?thesis by auto
qed

theorem rejected_edge_frame_witness:
  "add_edge False tie_first edges_s1 graph_s1 2 = Some (graph_s1_rejected, [2, 1, 0]) \<and>
   active_edges graph_s1_rejected = active_edges graph_s1 \<and>
   map outgoing (nodes graph_s1_rejected) = [[0], [1], []] \<and>
   quiescent edges_s1 graph_s1 \<and> in_bounds edges_s1 graph_s1 2 \<and> clean graph_s1_rejected"
proof -
  have ne: "[2, 1, 0] \<noteq> ([] :: nat list)" by simp
  note th = rejected_edge_frame [OF graph_s1_reject ne]
  from th have "active_edges graph_s1_rejected = active_edges graph_s1" by (rule conjunct1)
  moreover from th graph_s1_quiescent graph_s1_bounds(1) have "clean graph_s1_rejected" by blast
  moreover have "map outgoing (nodes graph_s1_rejected) = [[0], [1], []]"
    by (simp add: graph_s1_rejected_def mk_graph_def mk_node_def)
  ultimately show ?thesis using graph_s1_quiescent graph_s1_bounds(1) graph_s1_reject by simp
qed

text \<open>
  C1 as stated fails.  In scenario S1 the third edge is rejected with a cycle, and the
  potentials of \<open>a\<close> and \<open>b\<close>, both \<open>0\<close> before the call, are \<open>-3\<close> and \<open>-2\<close> after it.
\<close>

theorem restored_counterexample:
  "add_edges False tie_first edges_s1 [0, 1] empty_graph = Some (graph_s1, [[], []]) \<and>
   add_edge False tie_first edges_s1 graph_s1 2 = Some (graph_s1_rejected, [2, 1, 0]) \<and>
   map potential (nodes graph_s1) = [0, 0, 0] \<and>
   map potential (nodes graph_s1_rejected) = [- 3, - 2, 0]"
  by code_simp

text \<open>
  C2, as amended.  After a call of \<open>add_edge\<close> on a graph at quiescence that is within
  bounds and returns the empty sequence, the graph is at quiescence again, the edge is
  active, and every active edge \<open>u \<rightarrow> v\<close> of weight \<open>w\<close> has a reduced weight
  \<open>potential(u) + w - potential(v)\<close> that is not negative; in values,
  \<open>value(u) - value(v) \<le> w\<close>.
\<close>

lemma wrap32_neg: "- 2147483648 < p \<Longrightarrow> p \<le> 2147483648 \<Longrightarrow> wrap32 (- p) = - p"
  by (rule wrap32_id) simp_all

theorem accepted_edge_feasible:
  assumes "quiescent es g" and "in_bounds es g e" and "e < length es"
    and "add_edge ndebug tie es g e = Some (g', [])"
  shows "quiescent es g' \<and> e \<in> set (active_edges g') \<and>
         (\<forall>x \<in> set (active_edges g').
            0 \<le> reduced_weight es g' x \<and>
            node_value g' (from_node (es ! x)) - node_value g' (to_node (es ! x))
              \<le> weight (es ! x))"
proof -
  let ?u = "from_node (es ! e)" and ?v = "to_node (es ! e)"
  from assms(1) have wf: "wf_graph es g" by (simp add: quiescent_def)
  from add_edge_quiescent_ex [OF assms(1-3), of ndebug tie] obtain g1 c1 where
    r: "add_edge ndebug tie es g e = Some (g1, c1)" "clean g1"
      "length (nodes g1) = length (prepared es g e)"
      "\<forall>n < length (nodes g1). potential (nodes g1 ! n) \<le> potential (prepared es g e ! n) \<and>
         potential (prepared es g e ! n) - 805306368 \<le> potential (nodes g1 ! n)"
      "c1 = [] \<longrightarrow>
       (\<forall>n < length (nodes g1). outgoing (nodes g1 ! n)
           = outgoing (prepared es g e ! n) @ (if n = ?u then [e] else [])) \<and>
       feasible es g1"
    by (elim exE conjE) blast
  from r(1) assms(4) have eq: "g1 = g'" "c1 = []" by simp_all
  from r(2,3,4) have cl: "clean g'" and len: "length (nodes g') = length (prepared es g e)"
    and pot: "\<forall>n < length (nodes g'). potential (nodes g' ! n) \<le> potential (prepared es g e ! n) \<and>
         potential (prepared es g e ! n) - 805306368 \<le> potential (nodes g' ! n)"
    unfolding eq by simp_all
  from r(5) eq(2)
  have out: "\<forall>n < length (nodes g'). outgoing (nodes g' ! n)
           = outgoing (prepared es g e ! n) @ (if n = ?u then [e] else [])"
    and fe: "feasible es g'"
    unfolding eq by simp_all
  have u: "?u < length (nodes g')" and v: "?v < length (nodes g')"
    by (simp_all add: len length_prepared)
  text \<open>Every active edge leaves the node that lists it, and both its nodes have a
    potential in the range in which the negation is exact.\<close>
  have edge: "x < length es \<and> from_node (es ! x) = a \<and> to_node (es ! x) < length (nodes g') \<and>
      small (potential (prepared es g e ! a)) \<and>
      small (potential (prepared es g e ! to_node (es ! x)))"
    if a: "a < length (nodes g')" and x: "x \<in> set (outgoing (nodes g' ! a))" for a x
  proof -
    from a len have a': "a < length (prepared es g e)" by simp
    from x out a have "x \<in> set (outgoing (prepared es g e ! a)) \<or> a = ?u \<and> x = e"
      by (auto split: if_splits)
    then show ?thesis
    proof
      assume old: "x \<in> set (outgoing (prepared es g e ! a))"
      then have "x \<in> set (if a < length (nodes g) then outgoing (nodes g ! a) else [])"
        by (simp only: prepared_fields(1) [OF a'])
      then have ag: "a < length (nodes g)" "x \<in> set (outgoing (nodes g ! a))"
        by (auto split: if_splits)
      from wf_graphD [OF wf ag]
      have w: "x < length es" "from_node (es ! x) = a" "to_node (es ! x) < length (nodes g)"
        by simp_all
      from ag have "x \<in> set (active_edges g)" by (auto simp: active_edges_iff)
      from in_boundsD(1) [OF assms(2) this] w(2)
      have sm: "small (potential (nodes g ! a))" "small (potential (nodes g ! to_node (es ! x)))"
        by simp_all
      from prepared_old [OF ag(1) small_defined [OF sm(1)], of es e]
        prepared_old [OF w(3) small_defined [OF sm(2)], of es e] sm w
      show ?thesis by (simp add: len length_prepared)
    next
      assume "a = ?u \<and> x = e"
      with prepared_endpoint [OF assms(2), of ?u] prepared_endpoint [OF assms(2), of ?v]
        assms(3) v
      show ?thesis by simp
    qed
  qed
  have wfg: "wf_graph es g'"
    by (rule wf_graphI) (use edge in blast)
  have val: "node_value g' n = - potential (nodes g' ! n)"
    if "n < length (nodes g')" "small (potential (prepared es g e ! n))" for n
    unfolding node_value_def using pot that by (intro wrap32_neg) (auto simp: small_def)
  have "0 \<le> reduced_weight es g' x \<and>
      node_value g' (from_node (es ! x)) - node_value g' (to_node (es ! x)) \<le> weight (es ! x)"
    if x: "x \<in> set (active_edges g')" for x
  proof -
    from x obtain a where a: "a < length (nodes g')" "x \<in> set (outgoing (nodes g' ! a))"
      by (auto simp: active_edges_iff)
    from edge [OF a] have ed: "from_node (es ! x) = a" "to_node (es ! x) < length (nodes g')"
      "small (potential (prepared es g e ! a))"
      "small (potential (prepared es g e ! to_node (es ! x)))"
      by simp_all
    from fe x have rw: "0 \<le> reduced_weight es g' x" by (simp add: feasible_def)
    with val [OF a(1) ed(3)] val [OF ed(2,4)] ed(1) show ?thesis
      by (simp add: reduced_weight_def)
  qed
  moreover from out u have "e \<in> set (outgoing (nodes g' ! ?u))" by simp
  with u have "e \<in> set (active_edges g')" by (auto simp: active_edges_iff)
  moreover from wfg cl fe have "quiescent es g'" by (simp add: quiescent_def)
  ultimately show ?thesis by simp
qed

theorem accepted_edge_feasible_witness:
  "quiescent edges_s1 graph_s1 \<and> in_bounds edges_s1 graph_s1 3 \<and> 3 < length edges_s1 \<and>
   add_edge False tie_first edges_s1 graph_s1 3 = Some (graph_s1_accepted, []) \<and>
   quiescent edges_s1 graph_s1_accepted \<and>
   3 \<in> set (active_edges graph_s1_accepted) \<and>
   0 \<le> reduced_weight edges_s1 graph_s1_accepted 3 \<and>
   node_value graph_s1_accepted (from_node (edges_s1 ! 3))
     - node_value graph_s1_accepted (to_node (edges_s1 ! 3)) \<le> weight (edges_s1 ! 3)"
proof -
  have e: "3 < length edges_s1" by (simp add: edges_s1_def)
  from accepted_edge_feasible [OF graph_s1_quiescent graph_s1_bounds(2) e graph_s1_accept]
  have "quiescent edges_s1 graph_s1_accepted" "3 \<in> set (active_edges graph_s1_accepted)"
    and "\<forall>x \<in> set (active_edges graph_s1_accepted).
            0 \<le> reduced_weight edges_s1 graph_s1_accepted x \<and>
            node_value graph_s1_accepted (from_node (edges_s1 ! x))
              - node_value graph_s1_accepted (to_node (edges_s1 ! x)) \<le> weight (edges_s1 ! x)"
    by blast+
  from this(1,2) bspec [OF this(3) this(2)] graph_s1_quiescent graph_s1_bounds(2) e
    graph_s1_accept
  show ?thesis by simp
qed

text \<open>
  C2 as stated fails in its form with values.  In scenario S2 both edges are accepted;
  for the active edge \<open>y \<rightarrow> x\<close> of weight \<open>-5\<close> the difference \<open>value(x) - value(y)\<close> of
  the value of its target and the value of its source is \<open>5\<close>.
\<close>

theorem feasibility_counterexample:
  "add_edges False tie_first edges_s2 [0, 1] empty_graph = Some (graph_s2, [[], []]) \<and>
   active_edges graph_s2 = [0, 1] \<and>
   from_node (edges_s2 ! 1) = 1 \<and> to_node (edges_s2 ! 1) = 0 \<and> weight (edges_s2 ! 1) = - 5 \<and>
   node_value graph_s2 0 - node_value graph_s2 1 = 5"
  by code_simp

end
